theory Spec2Isabelle
  imports Complex_Main "HOL-Library.Multiset"
begin

section \<open>Data model\<close>

subsection \<open>The query AST (parser/ast.h)\<close>

text \<open>
  Modelled from the spec: the declarations of \<^verbatim>\<open>parser/ast.h\<close> (\<^verbatim>\<open>FieldPath\<close>,
  \<^verbatim>\<open>ComparisonOp\<close>, \<^verbatim>\<open>WhereExpr\<close>, \<^verbatim>\<open>ForClause\<close>, \<^verbatim>\<open>Query\<close>) are not part of the
  sources at hand. The types follow section 3 of the specification and the member
  accesses of \<^verbatim>\<open>query_executor.cpp\<close>. The member \<^verbatim>\<open>where\<close> is called \<open>where_expr\<close>,
  \<^verbatim>\<open>limit\<close> is a signed integer that is negative when no LIMIT was given.
\<close>

record FieldPath =
  components :: "string list"
  include_filename :: bool

datatype ComparisonOp = EQ | NE | LT | LE | GT | GE | IS_NULL | IS_NOT_NULL

datatype LogicalOp = AND | OR

datatype WhereExpr =
    WhereCondition (cond_field: FieldPath) (cond_op: ComparisonOp) (cond_literal: string)
      (cond_numeric: bool)
  | WhereLogical (logical_op: LogicalOp) (logical_left: WhereExpr) (logical_right: WhereExpr)

record ForClause =
  variable :: string
  path :: FieldPath

record Query =
  from_path :: string
  select_fields :: "FieldPath list"
  where_expr :: "WhereExpr option"
  for_clauses :: "ForClause list"
  order_by_fields :: "string list"
  limit :: int

text \<open>\<^verbatim>\<open>using ResultRow = std::vector<std::pair<std::string, std::string>>\<close>\<close>

type_synonym ResultRow = "(string \<times> string) list"

record XmlResult =
  xr_filename :: string
  xr_value :: string

subsection \<open>Documents (pugixml)\<close>

text \<open>
  A document is a tree of nodes, each with a type, a name, a value and its children in
  document order. A node handle (\<^verbatim>\<open>pugi::xml_node\<close>) is the position of the node in
  its document, the list of child indices leading to it from the document node,
  together with the subtree found there; two handles into one document are the same node
  exactly when their positions agree. The document node has the empty position. A null
  handle is \<open>None\<close>.
\<close>

datatype xml_node_type =
  node_null | node_document | node_element | node_pcdata | node_cdata | node_comment
  | node_pi | node_declaration | node_doctype

datatype xml_tree =
  XmlTree (tree_type: xml_node_type) (tree_name: string) (tree_value: string)
    (tree_children: "xml_tree list")

type_synonym xml_node = "nat list \<times> xml_tree"

definition doc_node :: "xml_tree \<Rightarrow> xml_node" where
  "doc_node doc = ([], doc)"

fun children_from :: "nat list \<Rightarrow> nat \<Rightarrow> xml_tree list \<Rightarrow> xml_node list" where
  "children_from p i [] = []"
| "children_from p i (c # cs) = (p @ [i], c) # children_from p (Suc i) cs"

definition children :: "xml_node \<Rightarrow> xml_node list" where
  "children node = children_from (fst node) 0 (tree_children (snd node))"

text \<open>\<^verbatim>\<open>found.parent() == node\<close>, for a handle \<open>found\<close> that is not null.\<close>

definition parent_is :: "xml_node \<Rightarrow> xml_node \<Rightarrow> bool" where
  "parent_is found node \<longleftrightarrow> fst found \<noteq> [] \<and> butlast (fst found) = fst node"

text \<open>
  \<^verbatim>\<open>xml_node::child_value()\<close>: the value of the first child that is a text node
  (PCDATA or CDATA), the empty string when there is none.
\<close>

fun first_text :: "xml_tree list \<Rightarrow> string" where
  "first_text [] = []"
| "first_text (c # cs) =
     (if tree_type c = node_pcdata \<or> tree_type c = node_cdata then tree_value c
      else first_text cs)"

definition child_value :: "xml_node \<Rightarrow> string" where
  "child_value node = first_text (tree_children (snd node))"

subsection \<open>Failures\<close>

text \<open>
  \<open>Exception\<close> is a C++ exception derived from \<^verbatim>\<open>std::exception\<close>, which the
  per-file \<^verbatim>\<open>try\<close>/\<^verbatim>\<open>catch\<close> blocks catch. \<open>UndefinedBehaviour\<close> marks an execution
  that leaves the C++ language: \<^verbatim>\<open>back()\<close> or \<^verbatim>\<open>operator[]\<close> on an empty vector, and
  \<^verbatim>\<open>std::sort\<close> with a comparator that is not a strict weak ordering. Nothing catches it.
\<close>

datatype failure = Exception | UndefinedBehaviour

fun sequence_f :: "(failure + 'a) list \<Rightarrow> failure + 'a list" where
  "sequence_f [] = Inr []"
| "sequence_f (Inl e # rs) = Inl e"
| "sequence_f (Inr x # rs) = (case sequence_f rs of Inl e \<Rightarrow> Inl e | Inr xs \<Rightarrow> Inr (x # xs))"

subsection \<open>The collaborators of the executor\<close>

text \<open>
  Modelled from the spec: \<^verbatim>\<open>XmlNavigator::findFirstElementByName\<close> is declared and
  defined outside the sources at hand. Section 4.1 of the specification: the first
  descendant element, depth first in pre-order, whose tag equals the given name.
\<close>

fun findFirstElementByName_in :: "nat list \<Rightarrow> nat \<Rightarrow> xml_tree list \<Rightarrow> string \<Rightarrow> xml_node option"
  where
  "findFirstElementByName_in p i [] name = None"
| "findFirstElementByName_in p i (XmlTree ty nm v cs # rest) name =
     (if ty = node_element \<and> nm = name then Some (p @ [i], XmlTree ty nm v cs)
      else (case findFirstElementByName_in (p @ [i]) 0 cs name of
              Some found \<Rightarrow> Some found
            | None \<Rightarrow> findFirstElementByName_in p (Suc i) rest name))"

definition findFirstElementByName :: "xml_node \<Rightarrow> string \<Rightarrow> xml_node option" where
  "findFirstElementByName node name =
     findFirstElementByName_in (fst node) 0 (tree_children (snd node)) name"

text \<open>
  The remaining functions of \<^verbatim>\<open>XmlNavigator\<close> that the executor calls, the document
  loader, the file system and the C++ library are not part of the sources at hand either.
  They are parameters of the model, collected in one record:
  \<^item> \<open>findNodesByPartialPath\<close>, \<open>countMatchingPaths\<close>, \<open>evaluateWhereExpr\<close> and
    \<open>extractValues\<close> of \<^verbatim>\<open>XmlNavigator\<close>;
  \<^item> \<open>load\<close> of \<^verbatim>\<open>XmlLoader\<close>, which yields the document or raises an exception
    (\<open>None\<close>), and \<open>isXmlFile\<close>;
  \<^item> \<open>fs_lookup\<close>, what the file system holds at a path;
  \<^item> \<open>stod\<close>, which is \<^verbatim>\<open>std::stod\<close> (\<open>None\<close> when it throws), and \<open>double_less\<close>,
    which is \<^verbatim>\<open><\<close> on \<^verbatim>\<open>double\<close>; the type \<open>'d\<close> stands for \<^verbatim>\<open>double\<close>;
  \<^item> \<open>sort_order\<close>, the arrangement \<^verbatim>\<open>std::sort\<close> produces for a comparator and a
    sequence (the C++ standard does not fix the algorithm, so ties may land in any order);
  \<^item> \<open>hardware_concurrency\<close>, the result of \<^verbatim>\<open>std::thread::hardware_concurrency()\<close>;
  \<^item> \<open>elapsed\<close>, the seconds between the two readings of the clock in
    \<^verbatim>\<open>executeWithProgress\<close>.
\<close>

datatype fs_node = FsRegularFile | FsDirectory "(string \<times> bool) list" | FsOther | FsError

record 'd world =
  findNodesByPartialPath :: "xml_node \<Rightarrow> string list \<Rightarrow> xml_node list"
  countMatchingPaths :: "xml_node \<Rightarrow> string list \<Rightarrow> int"
  evaluateWhereExpr :: "xml_node \<Rightarrow> WhereExpr \<Rightarrow> nat \<Rightarrow> bool"
  extractValues :: "xml_node \<Rightarrow> string \<Rightarrow> FieldPath \<Rightarrow> XmlResult list"
  load :: "string \<Rightarrow> xml_tree option"
  isXmlFile :: "string \<Rightarrow> bool"
  fs_lookup :: "string \<Rightarrow> fs_node"
  stod :: "string \<Rightarrow> 'd option"
  double_less :: "'d \<Rightarrow> 'd \<Rightarrow> bool"
  sort_order :: "(ResultRow \<Rightarrow> ResultRow \<Rightarrow> bool) \<Rightarrow> ResultRow list \<Rightarrow> ResultRow list"
  hardware_concurrency :: nat
  elapsed :: 'd

section \<open>The executor (query_executor.cpp)\<close>

subsection \<open>extractFieldPathFromWhere\<close>

fun extractFieldPathFromWhere :: "WhereExpr \<Rightarrow> FieldPath" where
  "extractFieldPathFromWhere (WhereCondition field op lit num) = field"
| "extractFieldPathFromWhere (WhereLogical op left right) = extractFieldPathFromWhere left"

subsection \<open>Building one row at a context node\<close>

text \<open>
  The loop over \<^verbatim>\<open>query.select_fields\<close> that builds a row at a context node occurs three
  times in the source with the same body (in \<^verbatim>\<open>processFileWithForClauses\<close>, in the
  tree walk of \<^verbatim>\<open>processFile\<close> and in its loop over the candidate nodes).
\<close>

definition contextValue :: "'d world \<Rightarrow> xml_node \<Rightarrow> FieldPath \<Rightarrow> string" where
  "contextValue W node field =
     (if length (components field) = 1 then
        (case findFirstElementByName node (components field ! 0) of
           Some foundNode \<Rightarrow> child_value foundNode
         | None \<Rightarrow> [])
      else
        (case findNodesByPartialPath W node (components field) of
           [] \<Rightarrow> []
         | fieldNode # _ \<Rightarrow> child_value fieldNode))"

definition contextPair :: "'d world \<Rightarrow> string \<Rightarrow> xml_node \<Rightarrow> FieldPath \<Rightarrow> failure + (string \<times> string)"
  where
  "contextPair W filename node field =
     (if include_filename field then Inr (''FILE_NAME'', filename)
      else if components field = [] then Inl UndefinedBehaviour
      else Inr (last (components field), contextValue W node field))"

definition contextRow :: "'d world \<Rightarrow> string \<Rightarrow> FieldPath list \<Rightarrow> xml_node \<Rightarrow> failure + ResultRow"
  where
  "contextRow W filename selFields node = sequence_f (map (contextPair W filename node) selFields)"

subsection \<open>processFileWithForClauses\<close>

fun findElements :: "string \<Rightarrow> nat list \<Rightarrow> xml_tree \<Rightarrow> xml_node list"
  and findElements_children :: "string \<Rightarrow> nat list \<Rightarrow> nat \<Rightarrow> xml_tree list \<Rightarrow> xml_node list"
  where
  "findElements elementName p (XmlTree ty nm v cs) =
     (if ty = node_element \<and> nm = elementName then [(p, XmlTree ty nm v cs)] else [])
     @ findElements_children elementName p 0 cs"
| "findElements_children elementName p i [] = []"
| "findElements_children elementName p i (c # cs) =
     findElements elementName (p @ [i]) c @ findElements_children elementName p (Suc i) cs"

definition processFileWithForClauses ::
  "'d world \<Rightarrow> Query \<Rightarrow> xml_tree \<Rightarrow> string \<Rightarrow> failure + ResultRow list" where
  "processFileWithForClauses W query doc filename =
     (case for_clauses query of
        [] \<Rightarrow> Inr []
      | forClause # _ \<Rightarrow>
          (let iterationNodes =
                 (if length (components (path forClause)) = 1
                  then findElements (components (path forClause) ! 0) [] doc
                  else findNodesByPartialPath W (doc_node doc) (components (path forClause)));
               passing =
                 (case where_expr query of
                    None \<Rightarrow> iterationNodes
                  | Some w \<Rightarrow> filter (\<lambda>contextNode. evaluateWhereExpr W contextNode w 0)
                               iterationNodes)
           in sequence_f (map (contextRow W filename (select_fields query)) passing)))"

subsection \<open>processFile\<close>

text \<open>The file name of a path: what follows its last slash.\<close>

definition path_filename :: "string \<Rightarrow> string" where
  "path_filename filepath = rev (takeWhile (\<lambda>c. c \<noteq> CHR ''/'') (rev filepath))"

text \<open>Plain projection: the column label, and row \<open>i\<close> of the cross-indexed table.\<close>

definition plainPair :: "nat \<Rightarrow> FieldPath \<times> XmlResult list \<Rightarrow> failure + (string \<times> string)" where
  "plainPair i ffr =
     (case ffr of (field, fr) \<Rightarrow>
        (if include_filename field
         then Inr (''FILE_NAME'', if i < length fr then xr_value (fr ! i) else [])
         else if components field = [] then Inl UndefinedBehaviour
         else Inr (last (components field), if i < length fr then xr_value (fr ! i) else [])))"

definition maxResults :: "XmlResult list list \<Rightarrow> nat" where
  "maxResults fieldResults = foldl (\<lambda>m fr. max m (length fr)) 0 fieldResults"

definition plainRows :: "FieldPath list \<Rightarrow> XmlResult list list \<Rightarrow> failure + ResultRow list" where
  "plainRows selFields fieldResults =
     (if fieldResults = [] then Inr []
      else sequence_f
             (map (\<lambda>i. sequence_f (map (plainPair i) (zip selFields fieldResults)))
                  [0 ..< maxResults fieldResults]))"

text \<open>
  The tree walk of the shorthand case. \<open>isNullCheck\<close> is set only when the WHERE
  expression itself is one condition with IS NULL or IS NOT NULL.
\<close>

definition isNullCheck :: "WhereExpr \<Rightarrow> bool" where
  "isNullCheck w =
     (case w of
        WhereCondition field op lit num \<Rightarrow> op = IS_NULL \<or> op = IS_NOT_NULL
      | WhereLogical op left right \<Rightarrow> False)"

definition hasSelectFieldChild :: "xml_node \<Rightarrow> FieldPath \<Rightarrow> bool" where
  "hasSelectFieldChild node selectField \<longleftrightarrow>
     \<not> include_filename selectField \<and> length (components selectField) = 1 \<and>
     (case findFirstElementByName node (components selectField ! 0) of
        Some foundNode \<Rightarrow> parent_is foundNode node
      | None \<Rightarrow> False)"

definition shouldEvaluate :: "Query \<Rightarrow> WhereExpr \<Rightarrow> FieldPath \<Rightarrow> xml_node \<Rightarrow> failure + bool" where
  "shouldEvaluate query w whereField node =
     (if isNullCheck w then
        Inr (tree_type (snd node) = node_element \<and> fst node \<noteq> [] \<and>
             list_ex (hasSelectFieldChild node) (select_fields query))
      else if components whereField = [] then Inl UndefinedBehaviour
      else
        Inr (case findFirstElementByName node (components whereField ! 0) of
               Some whereAttrNode \<Rightarrow> parent_is whereAttrNode node
             | None \<Rightarrow> False))"

definition visitNode ::
  "'d world \<Rightarrow> Query \<Rightarrow> string \<Rightarrow> WhereExpr \<Rightarrow> FieldPath \<Rightarrow> xml_node \<Rightarrow> (failure + ResultRow) list"
  where
  "visitNode W query filename w whereField node =
     (case shouldEvaluate query w whereField node of
        Inl e \<Rightarrow> [Inl e]
      | Inr False \<Rightarrow> []
      | Inr True \<Rightarrow>
          (if evaluateWhereExpr W node w 0
           then [contextRow W filename (select_fields query) node]
           else []))"

fun searchTree :: "(xml_node \<Rightarrow> 'r list) \<Rightarrow> nat list \<Rightarrow> xml_tree \<Rightarrow> 'r list"
  and searchTree_children :: "(xml_node \<Rightarrow> 'r list) \<Rightarrow> nat list \<Rightarrow> nat \<Rightarrow> xml_tree list \<Rightarrow> 'r list"
  where
  "searchTree visit p (XmlTree ty nm v cs) =
     visit (p, XmlTree ty nm v cs) @ searchTree_children visit p 0 cs"
| "searchTree_children visit p i [] = []"
| "searchTree_children visit p i (c # cs) =
     searchTree visit (p @ [i]) c @ searchTree_children visit p (Suc i) cs"

definition whereRows ::
  "'d world \<Rightarrow> Query \<Rightarrow> string \<Rightarrow> xml_tree \<Rightarrow> WhereExpr \<Rightarrow> failure + ResultRow list" where
  "whereRows W query filename doc w =
     (let whereField = extractFieldPathFromWhere w in
      if length (components whereField) < 2 then
        sequence_f (searchTree (visitNode W query filename w whereField) [] doc)
      else
        (let parentPath = butlast (components whereField);
             candidateNodes = findNodesByPartialPath W (doc_node doc) parentPath
         in sequence_f
              (map (contextRow W filename (select_fields query))
                 (filter (\<lambda>node. evaluateWhereExpr W node w (length parentPath))
                    candidateNodes))))"

definition processFile :: "'d world \<Rightarrow> string \<Rightarrow> Query \<Rightarrow> failure + ResultRow list" where
  "processFile W filepath query =
     (case load W filepath of
        None \<Rightarrow> Inl Exception
      | Some doc \<Rightarrow>
          (let filename = path_filename filepath in
           if for_clauses query \<noteq> [] then processFileWithForClauses W query doc filename
           else
             (case where_expr query of
                None \<Rightarrow>
                  plainRows (select_fields query)
                    (map (extractValues W (doc_node doc) filename) (select_fields query))
              | Some w \<Rightarrow> whereRows W query filename doc w)))"

subsection \<open>getXmlFiles\<close>

text \<open>
  What \<^verbatim>\<open>std::filesystem\<close> reports at a path: a regular file, a directory with the
  entries its iterator yields, each with the answer of \<^verbatim>\<open>is_regular_file\<close> (the
  entries up to the end of the directory or up to a \<^verbatim>\<open>filesystem_error\<close>, which is
  caught after the files found so far were added), something else, or an error.
\<close>

definition getXmlFiles :: "'d world \<Rightarrow> string \<Rightarrow> string list" where
  "getXmlFiles W p =
     (case fs_lookup W p of
        FsRegularFile \<Rightarrow> (if isXmlFile W p then [p] else [])
      | FsDirectory entries \<Rightarrow>
          map fst (filter (\<lambda>entry. snd entry \<and> isXmlFile W (fst entry)) entries)
      | FsOther \<Rightarrow> []
      | FsError \<Rightarrow> [])"

subsection \<open>ORDER BY and LIMIT\<close>

text \<open>\<^verbatim>\<open>operator<\<close> on \<^verbatim>\<open>std::string\<close>: bytes compared as unsigned, a proper prefix first.\<close>

fun string_less :: "string \<Rightarrow> string \<Rightarrow> bool" where
  "string_less [] [] = False"
| "string_less [] (y # ys) = True"
| "string_less (x # xs) [] = False"
| "string_less (x # xs) (y # ys) =
     (if (of_char x :: nat) < of_char y then True
      else if (of_char y :: nat) < of_char x then False
      else string_less xs ys)"

text \<open>The loop that looks the sort key up in a row, leaving the empty string when absent.\<close>

fun orderValue :: "string \<Rightarrow> ResultRow \<Rightarrow> string" where
  "orderValue orderField [] = []"
| "orderValue orderField (fv # rest) =
     (if fst fv = orderField then snd fv else orderValue orderField rest)"

text \<open>
  The comparator: both \<^verbatim>\<open>std::stod\<close> calls sit in one \<^verbatim>\<open>try\<close> block, and
  \<^verbatim>\<open>catch (...)\<close> falls back to the comparison of the strings.
\<close>

definition rowLess :: "'d world \<Rightarrow> string \<Rightarrow> ResultRow \<Rightarrow> ResultRow \<Rightarrow> bool" where
  "rowLess W orderField a b =
     (let aValue = orderValue orderField a; bValue = orderValue orderField b in
      case stod W aValue of
        None \<Rightarrow> string_less aValue bValue
      | Some aNum \<Rightarrow>
          (case stod W bValue of
             None \<Rightarrow> string_less aValue bValue
           | Some bNum \<Rightarrow> double_less W aNum bNum))"

text \<open>
  \<^verbatim>\<open>std::sort\<close> requires of its comparator a strict weak ordering of the values it is
  given: irreflexive, transitive, and with a transitive incomparability. With any other
  comparator the call has undefined behaviour.
\<close>

definition strict_weak_order :: "('a \<Rightarrow> 'a \<Rightarrow> bool) \<Rightarrow> 'a list \<Rightarrow> bool" where
  "strict_weak_order cmp xs \<longleftrightarrow>
     list_all (\<lambda>a. \<not> cmp a a) xs \<and>
     list_all (\<lambda>a. list_all (\<lambda>b. list_all (\<lambda>c. cmp a b \<and> cmp b c \<longrightarrow> cmp a c) xs) xs) xs \<and>
     list_all (\<lambda>a. list_all (\<lambda>b. list_all (\<lambda>c.
        \<not> cmp a b \<and> \<not> cmp b a \<and> \<not> cmp b c \<and> \<not> cmp c b \<longrightarrow> \<not> cmp a c \<and> \<not> cmp c a)
        xs) xs) xs"

definition std_sort ::
  "'d world \<Rightarrow> (ResultRow \<Rightarrow> ResultRow \<Rightarrow> bool) \<Rightarrow> ResultRow list \<Rightarrow> failure + ResultRow list"
  where
  "std_sort W cmp allResults =
     (if strict_weak_order cmp allResults then Inr (sort_order W cmp allResults)
      else Inl UndefinedBehaviour)"

definition applyOrderBy :: "'d world \<Rightarrow> Query \<Rightarrow> ResultRow list \<Rightarrow> failure + ResultRow list" where
  "applyOrderBy W query allResults =
     (case order_by_fields query of
        [] \<Rightarrow> Inr allResults
      | orderField # _ \<Rightarrow> std_sort W (rowLess W orderField) allResults)"

definition applyLimit :: "Query \<Rightarrow> ResultRow list \<Rightarrow> ResultRow list" where
  "applyLimit query allResults =
     (if limit query \<ge> 0 \<and> nat (limit query) < length allResults
      then take (nat (limit query)) allResults
      else allResults)"

definition postProcess :: "'d world \<Rightarrow> Query \<Rightarrow> ResultRow list \<Rightarrow> failure + ResultRow list" where
  "postProcess W query allResults =
     (case applyOrderBy W query allResults of
        Inl e \<Rightarrow> Inl e
      | Inr sortedResults \<Rightarrow> Inr (applyLimit query sortedResults))"

subsection \<open>execute\<close>

text \<open>
  The loop over the files: an exception of \<^verbatim>\<open>processFile\<close> is caught and reported, and
  the loop goes on with the next file.
\<close>

fun processFiles ::
  "'d world \<Rightarrow> Query \<Rightarrow> string list \<Rightarrow> ResultRow list \<Rightarrow> failure + ResultRow list" where
  "processFiles W query [] allResults = Inr allResults"
| "processFiles W query (filepath # rest) allResults =
     (case processFile W filepath query of
        Inr fileResults \<Rightarrow> processFiles W query rest (allResults @ fileResults)
      | Inl Exception \<Rightarrow> processFiles W query rest allResults
      | Inl UndefinedBehaviour \<Rightarrow> Inl UndefinedBehaviour)"

definition execute_files :: "'d world \<Rightarrow> Query \<Rightarrow> string list \<Rightarrow> failure + ResultRow list" where
  "execute_files W query xmlFiles =
     (if xmlFiles = [] then Inr []
      else (case processFiles W query xmlFiles [] of
              Inl e \<Rightarrow> Inl e
            | Inr allResults \<Rightarrow> postProcess W query allResults))"

definition execute :: "'d world \<Rightarrow> Query \<Rightarrow> failure + ResultRow list" where
  "execute W query = execute_files W query (getXmlFiles W (from_path query))"

subsection \<open>checkForAmbiguousAttributes\<close>

fun pathToString_from :: "string list \<Rightarrow> string" where
  "pathToString_from [] = []"
| "pathToString_from (c # cs) = ''.'' @ c @ pathToString_from cs"

definition pathToString :: "FieldPath \<Rightarrow> string" where
  "pathToString field =
     (case components field of [] \<Rightarrow> [] | c # cs \<Rightarrow> c @ pathToString_from cs)"

fun checkSelectFields :: "'d world \<Rightarrow> xml_node \<Rightarrow> FieldPath list \<Rightarrow> string list \<Rightarrow> string list"
  where
  "checkSelectFields W doc [] ambiguousAttrs = ambiguousAttrs"
| "checkSelectFields W doc (field # rest) ambiguousAttrs =
     (if include_filename field then checkSelectFields W doc rest ambiguousAttrs
      else if length (components field) < 2 then checkSelectFields W doc rest ambiguousAttrs
      else if countMatchingPaths W doc (components field) > 1
           then checkSelectFields W doc rest (ambiguousAttrs @ [pathToString field])
           else checkSelectFields W doc rest ambiguousAttrs)"

fun checkWhereFields :: "'d world \<Rightarrow> xml_node \<Rightarrow> WhereExpr \<Rightarrow> string list \<Rightarrow> string list" where
  "checkWhereFields W doc (WhereCondition field op lit num) ambiguousAttrs =
     (if length (components field) \<ge> 2 \<and> countMatchingPaths W doc (components field) > 1
      then (let fieldStr = pathToString field in
            if fieldStr \<in> set ambiguousAttrs then ambiguousAttrs
            else ambiguousAttrs @ [fieldStr])
      else ambiguousAttrs)"
| "checkWhereFields W doc (WhereLogical op left right) ambiguousAttrs =
     checkWhereFields W doc right (checkWhereFields W doc left ambiguousAttrs)"

text \<open>
  The load of the first file is not inside a \<^verbatim>\<open>try\<close> block: an exception of the
  loader leaves the function.
\<close>

definition checkForAmbiguousAttributes :: "'d world \<Rightarrow> Query \<Rightarrow> failure + string list" where
  "checkForAmbiguousAttributes W query =
     (case getXmlFiles W (from_path query) of
        [] \<Rightarrow> Inr []
      | first # _ \<Rightarrow>
          (case load W first of
             None \<Rightarrow> Inl Exception
           | Some doc \<Rightarrow>
               (let ambiguousAttrs = checkSelectFields W (doc_node doc) (select_fields query) []
                in case where_expr query of
                     None \<Rightarrow> Inr ambiguousAttrs
                   | Some w \<Rightarrow> Inr (checkWhereFields W (doc_node doc) w ambiguousAttrs))))"

subsection \<open>Threads\<close>

definition getOptimalThreadCount :: "'d world \<Rightarrow> nat" where
  "getOptimalThreadCount W =
     (let hwThreads = (if hardware_concurrency W = 0 then 4 else hardware_concurrency W)
      in min hwThreads 16)"

definition shouldUseThreading :: "nat \<Rightarrow> bool" where
  "shouldUseThreading fileCount = (let threshold = 5 in fileCount \<ge> threshold)"

text \<open>
  The file indices of one worker: the loop
  \<^verbatim>\<open>for (fileIdx = threadId; fileIdx < xmlFiles.size(); fileIdx += threadCount)\<close>.
  A worker exists only for \<^verbatim>\<open>threadId < threadCount\<close>, so the loop never runs with
  \<^verbatim>\<open>threadCount\<close> zero; the first test makes the function total there.
\<close>

function workerFiles :: "nat \<Rightarrow> nat \<Rightarrow> nat \<Rightarrow> nat list" where
  "workerFiles fileIdx threadCount n =
     (if threadCount = 0 then []
      else if fileIdx < n then fileIdx # workerFiles (fileIdx + threadCount) threadCount n
      else [])"
  by pat_completeness auto
termination
  by (relation "measure (\<lambda>(fileIdx, threadCount, n). n - fileIdx)") auto

declare workerFiles.simps [simp del]

text \<open>
  The workers run concurrently. Each processes its files in order and appends the rows
  of one file to the shared result under the lock, so the shared result is built from
  whole per-file blocks, in the order in which the workers take the lock. That order is
  the schedule \<open>sched\<close>, a list of worker numbers: the worker named next appends the rows
  of its next file (a file whose processing raised an exception appends nothing). An
  entry that names no worker, or one that has finished, is skipped, and since
  \<^verbatim>\<open>join\<close> waits for every worker, what the schedule leaves undone is completed worker
  by worker. Every run of the threads is the run of some schedule.
\<close>

fun runWorkers ::
  "(nat \<Rightarrow> failure + ResultRow list) \<Rightarrow> nat list list \<Rightarrow> nat list \<Rightarrow> ResultRow list
     \<Rightarrow> failure + ResultRow list" where
  "runWorkers pf [] [] allResults = Inr allResults"
| "runWorkers pf ([] # pending) [] allResults = runWorkers pf pending [] allResults"
| "runWorkers pf ((fileIdx # remaining) # pending) [] allResults =
     (case pf fileIdx of
        Inr fileResults \<Rightarrow> runWorkers pf (remaining # pending) [] (allResults @ fileResults)
      | Inl Exception \<Rightarrow> runWorkers pf (remaining # pending) [] allResults
      | Inl UndefinedBehaviour \<Rightarrow> Inl UndefinedBehaviour)"
| "runWorkers pf pending (threadId # sched) allResults =
     (if threadId < length pending then
        (case pending ! threadId of
           [] \<Rightarrow> runWorkers pf pending sched allResults
         | fileIdx # remaining \<Rightarrow>
             (case pf fileIdx of
                Inr fileResults \<Rightarrow>
                  runWorkers pf (pending[threadId := remaining]) sched (allResults @ fileResults)
              | Inl Exception \<Rightarrow> runWorkers pf (pending[threadId := remaining]) sched allResults
              | Inl UndefinedBehaviour \<Rightarrow> Inl UndefinedBehaviour))
      else runWorkers pf pending sched allResults)"

definition executeMultithreaded ::
  "'d world \<Rightarrow> string list \<Rightarrow> Query \<Rightarrow> nat \<Rightarrow> nat list \<Rightarrow> failure + ResultRow list" where
  "executeMultithreaded W xmlFiles query threadCount sched =
     runWorkers (\<lambda>fileIdx. processFile W (xmlFiles ! fileIdx) query)
       (map (\<lambda>threadId. workerFiles threadId threadCount (length xmlFiles)) [0 ..< threadCount])
       sched []"

subsection \<open>executeWithProgress\<close>

text \<open>
  Modelled from the spec: \<^verbatim>\<open>ExecutionStats\<close> is declared outside the sources at hand;
  section 3 of the specification and the assignments in \<^verbatim>\<open>executeWithProgress\<close> give
  its members. The statistics are written through a pointer that may be null: the model
  takes the record as it is before the call (\<open>None\<close> for a null pointer) and returns it
  as it is afterwards.

  The progress callback is modelled by the calls it receives, in order: \<open>progressCallback\<close>
  says whether a callback was given. On the sequential path it is called after each file
  that was processed without an exception. On the threaded path the monitoring thread
  reads the counter once a second: \<open>polls\<close> are the values it read, and one final call
  follows.
\<close>

record 'd ExecutionStats =
  total_files :: nat
  thread_count :: nat
  used_threading :: bool
  execution_time_seconds :: 'd

fun processFilesWithProgress ::
  "'d world \<Rightarrow> Query \<Rightarrow> bool \<Rightarrow> string list \<Rightarrow> nat \<Rightarrow> nat \<Rightarrow> ResultRow list
     \<Rightarrow> (nat \<times> nat \<times> nat) list \<Rightarrow> failure + (ResultRow list \<times> (nat \<times> nat \<times> nat) list)" where
  "processFilesWithProgress W query progressCallback [] i fileCount allResults calls =
     Inr (allResults, calls)"
| "processFilesWithProgress W query progressCallback (filepath # rest) i fileCount allResults calls =
     (case processFile W filepath query of
        Inr fileResults \<Rightarrow>
          processFilesWithProgress W query progressCallback rest (Suc i) fileCount
            (allResults @ fileResults)
            (if progressCallback then calls @ [(i + 1, fileCount, 1)] else calls)
      | Inl Exception \<Rightarrow>
          processFilesWithProgress W query progressCallback rest (Suc i) fileCount allResults calls
      | Inl UndefinedBehaviour \<Rightarrow> Inl UndefinedBehaviour)"

text \<open>The two branches that gather the rows of all files, threaded and sequential.\<close>

definition gatherResults ::
  "'d world \<Rightarrow> Query \<Rightarrow> bool \<Rightarrow> string list \<Rightarrow> bool \<Rightarrow> nat \<Rightarrow> nat list \<Rightarrow> nat list
     \<Rightarrow> failure + (ResultRow list \<times> (nat \<times> nat \<times> nat) list)" where
  "gatherResults W query progressCallback xmlFiles useThreading threadCount sched polls =
     (let fileCount = length xmlFiles in
      if useThreading then
        (case executeMultithreaded W xmlFiles query threadCount sched of
           Inl e \<Rightarrow> Inl e
         | Inr allResults \<Rightarrow>
             Inr (allResults,
                  if progressCallback
                  then map (\<lambda>completed. (completed, fileCount, threadCount)) polls
                       @ [(fileCount, fileCount, threadCount)]
                  else []))
      else processFilesWithProgress W query progressCallback xmlFiles 0 fileCount [] [])"

definition statsStarted :: "nat \<Rightarrow> nat \<Rightarrow> bool \<Rightarrow> 'd ExecutionStats \<Rightarrow> 'd ExecutionStats" where
  "statsStarted fileCount threadCount useThreading s =
     s\<lparr>total_files := fileCount, thread_count := threadCount, used_threading := useThreading\<rparr>"

definition statsFinished :: "'d \<Rightarrow> 'd ExecutionStats \<Rightarrow> 'd ExecutionStats" where
  "statsFinished seconds s = s\<lparr>execution_time_seconds := seconds\<rparr>"

definition executeWithProgress ::
  "'d world \<Rightarrow> Query \<Rightarrow> bool \<Rightarrow> 'd ExecutionStats option \<Rightarrow> nat list \<Rightarrow> nat list
     \<Rightarrow> failure + (ResultRow list \<times> 'd ExecutionStats option \<times> (nat \<times> nat \<times> nat) list)" where
  "executeWithProgress W query progressCallback stats sched polls =
     (let xmlFiles = getXmlFiles W (from_path query) in
      if xmlFiles = [] then Inr ([], stats, [])
      else
        (let fileCount = length xmlFiles;
             useThreading = shouldUseThreading fileCount;
             threadCount = (if useThreading then getOptimalThreadCount W else 1);
             stats1 = map_option (statsStarted fileCount threadCount useThreading) stats
         in case gatherResults W query progressCallback xmlFiles useThreading threadCount
                   sched polls of
              Inl e \<Rightarrow> Inl e
            | Inr gathered \<Rightarrow>
                (case postProcess W query (fst gathered) of
                   Inl e \<Rightarrow> Inl e
                 | Inr finalResults \<Rightarrow>
                     Inr (finalResults, map_option (statsFinished (elapsed W)) stats1,
                          snd gathered))))"

section \<open>An environment for the examples\<close>

text \<open>
  The theorems below hold for every value of the parameters. To evaluate them on concrete
  queries and documents, this section fixes one value for each parameter.
\<close>

subsection \<open>Decimal literals\<close>

text \<open>
  \<open>stod_decimal\<close> reads what \<^verbatim>\<open>std::stod\<close> reads of a decimal literal: white space, a
  sign, digits with an optional fraction, an optional exponent; it fails when no digit is
  found. The value is kept exact, as a rational number, and compared exactly. Literals in
  hexadecimal, infinities and NaN, rounding and the range of \<^verbatim>\<open>double\<close> are outside
  this example.
\<close>

definition is_space :: "char \<Rightarrow> bool" where
  "is_space c \<longleftrightarrow> (of_char c :: nat) = 32 \<or> (9 \<le> (of_char c :: nat) \<and> (of_char c :: nat) \<le> 13)"

definition is_digit :: "char \<Rightarrow> bool" where
  "is_digit c \<longleftrightarrow> 48 \<le> (of_char c :: nat) \<and> (of_char c :: nat) \<le> 57"

fun read_digits :: "nat \<Rightarrow> nat \<Rightarrow> string \<Rightarrow> nat \<times> nat \<times> string" where
  "read_digits acc cnt [] = (acc, cnt, [])"
| "read_digits acc cnt (c # cs) =
     (if is_digit c then read_digits (10 * acc + (of_char c - 48)) (Suc cnt) cs
      else (acc, cnt, c # cs))"

definition read_sign :: "string \<Rightarrow> bool \<times> string" where
  "read_sign s =
     (case s of
        [] \<Rightarrow> (False, [])
      | c # cs \<Rightarrow> (if c = CHR ''-'' then (True, cs) else if c = CHR ''+'' then (False, cs)
                   else (False, s)))"

definition read_exponent :: "string \<Rightarrow> int" where
  "read_exponent s =
     (case s of
        [] \<Rightarrow> 0
      | c # cs \<Rightarrow>
          (if c = CHR ''e'' \<or> c = CHR ''E'' then
             (case read_sign cs of (neg, ds) \<Rightarrow>
                (case read_digits 0 0 ds of (e, cnt, _) \<Rightarrow>
                   (if cnt = 0 then 0 else if neg then - int e else int e)))
           else 0))"

definition scale10 :: "rat \<Rightarrow> int \<Rightarrow> rat" where
  "scale10 x e = (if e \<ge> 0 then x * 10 ^ nat e else x / 10 ^ nat (- e))"

definition stod_decimal :: "string \<Rightarrow> rat option" where
  "stod_decimal s =
     (case read_sign (dropWhile is_space s) of (neg, s1) \<Rightarrow>
        (case read_digits 0 0 s1 of (ipart, icnt, s2) \<Rightarrow>
           (case (case s2 of
                    [] \<Rightarrow> (0, 0, s2)
                  | c # cs \<Rightarrow> (if c = CHR ''.'' then read_digits 0 0 cs else (0, 0, s2)))
            of (fpart, fcnt, s3) \<Rightarrow>
              (if icnt + fcnt = 0 then None
               else
                 (let mantissa = of_nat (ipart * 10 ^ fcnt + fpart) :: rat;
                      v = scale10 mantissa (read_exponent s3 - int fcnt)
                  in Some (if neg then - v else v))))))"

subsection \<open>A navigator\<close>

text \<open>
  Partial path matching below a node: the elements whose chain of names, read downwards
  from the children of the start node, ends with the given components.
\<close>

fun partialMatches :: "string list \<Rightarrow> string list \<Rightarrow> nat list \<Rightarrow> nat \<Rightarrow> xml_tree list \<Rightarrow> xml_node list"
  where
  "partialMatches comps chain p i [] = []"
| "partialMatches comps chain p i (XmlTree ty nm v cs # rest) =
     (if ty = node_element \<and> comps \<noteq> [] \<and> length comps \<le> Suc (length chain)
         \<and> drop (Suc (length chain) - length comps) (chain @ [nm]) = comps
      then [(p @ [i], XmlTree ty nm v cs)] else [])
     @ partialMatches comps (chain @ [nm]) (p @ [i]) 0 cs
     @ partialMatches comps chain p (Suc i) rest"

definition ex_findNodesByPartialPath :: "xml_node \<Rightarrow> string list \<Rightarrow> xml_node list" where
  "ex_findNodesByPartialPath node comps =
     partialMatches comps [] (fst node) 0 (tree_children (snd node))"

definition ex_extractValues :: "xml_node \<Rightarrow> string \<Rightarrow> FieldPath \<Rightarrow> XmlResult list" where
  "ex_extractValues doc filename field =
     (if include_filename field then [\<lparr>xr_filename = filename, xr_value = filename\<rparr>]
      else map (\<lambda>node. \<lparr>xr_filename = filename, xr_value = child_value node\<rparr>)
             (ex_findNodesByPartialPath doc (components field)))"

definition ex_resolve :: "xml_node \<Rightarrow> FieldPath \<Rightarrow> nat \<Rightarrow> string option" where
  "ex_resolve node field depth =
     (let comps = drop depth (components field) in
      if length comps = 1 then map_option child_value (findFirstElementByName node (comps ! 0))
      else (case ex_findNodesByPartialPath node comps of
              [] \<Rightarrow> None
            | found # _ \<Rightarrow> Some (child_value found)))"

definition ex_compare :: "ComparisonOp \<Rightarrow> bool \<Rightarrow> string \<Rightarrow> string \<Rightarrow> bool" where
  "ex_compare op numeric l r =
     (case (stod_decimal l, stod_decimal r) of
        (Some x, Some y) \<Rightarrow>
          (case op of EQ \<Rightarrow> x = y | NE \<Rightarrow> x \<noteq> y | LT \<Rightarrow> x < y | LE \<Rightarrow> x \<le> y
                    | GT \<Rightarrow> y < x | GE \<Rightarrow> y \<le> x | IS_NULL \<Rightarrow> False | IS_NOT_NULL \<Rightarrow> True)
      | _ \<Rightarrow>
          (case op of EQ \<Rightarrow> l = r | NE \<Rightarrow> l \<noteq> r | LT \<Rightarrow> string_less l r
                    | LE \<Rightarrow> \<not> string_less r l | GT \<Rightarrow> string_less r l
                    | GE \<Rightarrow> \<not> string_less l r | IS_NULL \<Rightarrow> False | IS_NOT_NULL \<Rightarrow> True))"

fun ex_evaluateWhereExpr :: "xml_node \<Rightarrow> WhereExpr \<Rightarrow> nat \<Rightarrow> bool" where
  "ex_evaluateWhereExpr node (WhereCondition field op lit num) depth =
     (case ex_resolve node field depth of
        None \<Rightarrow> op = IS_NULL
      | Some v \<Rightarrow> op \<noteq> IS_NULL \<and> ex_compare op num v lit)"
| "ex_evaluateWhereExpr node (WhereLogical op left right) depth =
     (case op of
        AND \<Rightarrow> ex_evaluateWhereExpr node left depth \<and> ex_evaluateWhereExpr node right depth
      | OR \<Rightarrow> ex_evaluateWhereExpr node left depth \<or> ex_evaluateWhereExpr node right depth)"

subsection \<open>A sorting algorithm\<close>

text \<open>Insertion sort, one of the arrangements \<^verbatim>\<open>std::sort\<close> may produce.\<close>

fun insert_by :: "('a \<Rightarrow> 'a \<Rightarrow> bool) \<Rightarrow> 'a \<Rightarrow> 'a list \<Rightarrow> 'a list" where
  "insert_by cmp x [] = [x]"
| "insert_by cmp x (y # ys) = (if cmp x y then x # y # ys else y # insert_by cmp x ys)"

fun sort_by :: "('a \<Rightarrow> 'a \<Rightarrow> bool) \<Rightarrow> 'a list \<Rightarrow> 'a list" where
  "sort_by cmp [] = []"
| "sort_by cmp (x # xs) = insert_by cmp x (sort_by cmp xs)"

subsection \<open>The world\<close>

text \<open>
  The example world is given by its documents (the paths that load, with their trees) and
  its file system; the machine reports eight hardware threads.
\<close>

definition ex_world :: "(string \<times> xml_tree) list \<Rightarrow> (string \<Rightarrow> fs_node) \<Rightarrow> rat world" where
  "ex_world docs files =
     \<lparr>findNodesByPartialPath = ex_findNodesByPartialPath,
      countMatchingPaths = (\<lambda>node comps. int (length (ex_findNodesByPartialPath node comps))),
      evaluateWhereExpr = ex_evaluateWhereExpr,
      extractValues = ex_extractValues,
      load = map_of docs,
      isXmlFile = (\<lambda>p. 4 \<le> length p \<and> drop (length p - 4) p = ''.xml''),
      fs_lookup = files,
      stod = stod_decimal,
      double_less = (\<lambda>x y. x < y),
      sort_order = sort_by,
      hardware_concurrency = 8,
      elapsed = 0\<rparr>"

definition text_node :: "string \<Rightarrow> xml_tree" where
  "text_node s = XmlTree node_pcdata [] s []"

definition element :: "string \<Rightarrow> xml_tree list \<Rightarrow> xml_tree" where
  "element nm cs = XmlTree node_element nm [] cs"

definition document :: "xml_tree list \<Rightarrow> xml_tree" where
  "document cs = XmlTree node_document [] [] cs"

definition simple_field :: "string list \<Rightarrow> FieldPath" where
  "simple_field comps = \<lparr>components = comps, include_filename = False\<rparr>"

subsection \<open>Documents, directories and queries\<close>

definition food :: "string \<Rightarrow> string \<Rightarrow> xml_tree" where
  "food nm cal =
     element ''food'' [element ''name'' [text_node nm], element ''calories'' [text_node cal]]"

definition menu_a :: xml_tree where
  "menu_a = document [element ''breakfast_menu'' [food ''Toast'' ''900'', food ''Waffles'' ''650'']]"

definition menu_b :: xml_tree where
  "menu_b = document [element ''breakfast_menu'' [food ''Eggs'' ''300'']]"

definition menu_e :: xml_tree where
  "menu_e = document [element ''breakfast_menu'' [food ''Pancakes'' ''1200'']]"

definition menu_f :: xml_tree where
  "menu_f = document [element ''breakfast_menu'' [food ''Juice'' ''5'']]"

text \<open>
  Two directories: \<^verbatim>\<open>few\<close> holds three XML files, \<^verbatim>\<open>data\<close> five. The file
  \<^verbatim>\<open>c.xml\<close> of either is malformed: loading it raises an exception.
\<close>

text \<open>A document whose root element holds text only.\<close>

definition ex_note :: xml_tree where
  "ex_note = document [element ''note'' [text_node ''hello'']]"

text \<open>A document with three sort keys, and a menu in which one food has no price.\<close>

definition ex_keys :: xml_tree where
  "ex_keys =
     document [element ''keys''
       [element ''k'' [text_node ''+5''], element ''k'' [text_node '',''],
        element ''k'' [text_node ''-7'']]]"

definition ex_priced :: xml_tree where
  "ex_priced =
     document [element ''breakfast_menu''
       [element ''food'' [element ''name'' [text_node ''Toast''], element ''price'' [text_node ''5'']],
        element ''food'' [element ''name'' [text_node ''Eggs'']]]]"

definition ex_docs :: "(string \<times> xml_tree) list" where
  "ex_docs =
     [(''few/a.xml'', menu_a), (''few/b.xml'', menu_b),
      (''data/a.xml'', menu_a), (''data/b.xml'', menu_b), (''data/e.xml'', menu_e),
      (''data/f.xml'', menu_f), (''note.xml'', ex_note),
      (''keys.xml'', ex_keys), (''priced.xml'', ex_priced)]"

definition ex_files :: "string \<Rightarrow> fs_node" where
  "ex_files p =
     (if p = ''few'' then
        FsDirectory [(''few/a.xml'', True), (''few/b.xml'', True), (''few/notes.txt'', True),
                     (''few/old.xml'', False), (''few/c.xml'', True)]
      else if p = ''data'' then
        FsDirectory [(''data/a.xml'', True), (''data/b.xml'', True), (''data/c.xml'', True),
                     (''data/e.xml'', True), (''data/f.xml'', True)]
      else if p = ''empty'' then FsDirectory []
      else if p = ''few/a.xml'' then FsRegularFile
      else if p = ''keys.xml'' then FsRegularFile
      else if p = ''note.xml'' then FsRegularFile
      else if p = ''priced.xml'' then FsRegularFile
      else FsOther)"

definition ex_W :: "rat world" where
  "ex_W = ex_world ex_docs ex_files"

definition ex_select :: "string \<Rightarrow> Query" where
  "ex_select dir =
     \<lparr>from_path = dir,
      select_fields = [\<lparr>components = [], include_filename = True\<rparr>,
                       simple_field [''name''], simple_field [''calories'']],
      where_expr = None, for_clauses = [], order_by_fields = [], limit = - 1\<rparr>"

definition ex_ordered :: "string \<Rightarrow> Query" where
  "ex_ordered dir = (ex_select dir)\<lparr>order_by_fields := [''calories'', ''name''], limit := 2\<rparr>"

definition row3 :: "string \<Rightarrow> string \<Rightarrow> string \<Rightarrow> ResultRow" where
  "row3 file nm cal = [(''FILE_NAME'', file), (''name'', nm), (''calories'', cal)]"

text \<open>The statistics record a caller may hold from an earlier, threaded run.\<close>

definition ex_stats :: "rat ExecutionStats" where
  "ex_stats =
     \<lparr>total_files = 7, thread_count = 8, used_threading = True, execution_time_seconds = 3\<rparr>"

text \<open>A query that names one ambiguous path twice in SELECT and once more in WHERE.\<close>

definition ex_duplicate :: Query where
  "ex_duplicate =
     \<lparr>from_path = ''few'',
      select_fields = [simple_field [''food'', ''name''], simple_field [''food'', ''name'']],
      where_expr = Some (WhereCondition (simple_field [''food'', ''name'']) EQ ''Toast'' False),
      for_clauses = [], order_by_fields = [], limit = - 1\<rparr>"

text \<open>A row with the single column \<^verbatim>\<open>k\<close>.\<close>

definition keyed :: "string \<Rightarrow> ResultRow" where
  "keyed v = [(''k'', v)]"

definition ex_note_query :: Query where
  "ex_note_query =
     \<lparr>from_path = ''note.xml'', select_fields = [simple_field [''note'']],
      where_expr = Some (WhereCondition (simple_field [''note'']) EQ ''hello'' False),
      for_clauses = [], order_by_fields = [], limit = - 1\<rparr>"

text \<open>\<^verbatim>\<open>SELECT k FROM keys.xml ORDER BY k\<close>.\<close>

definition ex_keys_query :: Query where
  "ex_keys_query =
     \<lparr>from_path = ''keys.xml'', select_fields = [simple_field [''k'']],
      where_expr = None, for_clauses = [], order_by_fields = [''k''], limit = - 1\<rparr>"

text \<open>\<^verbatim>\<open>SELECT name FROM priced.xml WHERE ...\<close>, for a WHERE expression given.\<close>

definition ex_priced_query :: "WhereExpr \<Rightarrow> Query" where
  "ex_priced_query w =
     \<lparr>from_path = ''priced.xml'', select_fields = [simple_field [''name'']],
      where_expr = Some w, for_clauses = [], order_by_fields = [], limit = - 1\<rparr>"

definition price_is_null :: WhereExpr where
  "price_is_null = WhereCondition (simple_field [''price'']) IS_NULL [] False"

definition name_is_toast :: WhereExpr where
  "name_is_toast = WhereCondition (simple_field [''name'']) EQ ''Toast'' False"

definition cheap :: WhereExpr where
  "cheap = WhereCondition (simple_field [''calories'']) LT ''700'' True"

section \<open>Notions of the specification\<close>

text \<open>
  The column label of a select field: the label \<^verbatim>\<open>FILE_NAME\<close> for the source
  identifier, else the last path component.
\<close>

definition fieldName :: "FieldPath \<Rightarrow> string" where
  "fieldName f = (if include_filename f then ''FILE_NAME'' else last (components f))"

text \<open>A select field has a label when it is the source identifier or has a component.\<close>

definition named :: "FieldPath \<Rightarrow> bool" where
  "named f \<longleftrightarrow> include_filename f \<or> components f \<noteq> []"

text \<open>The value of one cell of the cross-indexed table of the plain projection.\<close>

definition plainCell :: "XmlResult list \<Rightarrow> nat \<Rightarrow> string" where
  "plainCell fr i = (if i < length fr then xr_value (fr ! i) else [])"

text \<open>
  The rows a file contributes to the merged result: its rows when it was processed, none
  when its processing raised an exception. \<open>rowsOfAll\<close> collects them over a multiset
  of files.
\<close>

definition rowsOf :: "('a \<Rightarrow> failure + ResultRow list) \<Rightarrow> 'a \<Rightarrow> ResultRow list" where
  "rowsOf pf x = (case pf x of Inr fileResults \<Rightarrow> fileResults | Inl e \<Rightarrow> [])"

definition rowsOfAll :: "('a \<Rightarrow> failure + ResultRow list) \<Rightarrow> 'a multiset \<Rightarrow> ResultRow multiset" where
  "rowsOfAll pf X = \<Sum>\<^sub># (image_mset (\<lambda>x. mset (rowsOf pf x)) X)"

text \<open>The rows a file contributes: those \<open>processFile\<close> returns, none when it fails.\<close>

definition fileRows :: "'d world \<Rightarrow> Query \<Rightarrow> string \<Rightarrow> ResultRow list" where
  "fileRows W query filepath =
     (case processFile W filepath query of Inr fileResults \<Rightarrow> fileResults | Inl e \<Rightarrow> [])"


text \<open>
  A run of the workers appends whole blocks, one per pending file, each the rows of that
  file in their order; \<open>order\<close> is the order in which the files were appended.
\<close>

definition workersBlocks ::
  "(nat \<Rightarrow> failure + ResultRow list) \<Rightarrow> nat list list \<Rightarrow> nat list \<Rightarrow> ResultRow list \<Rightarrow> bool" where
  "workersBlocks pf pending sched allResults \<longleftrightarrow>
     (if \<exists>i \<in> set (concat pending). pf i = Inl UndefinedBehaviour
      then runWorkers pf pending sched allResults = Inl UndefinedBehaviour
      else \<exists>order. mset order = mset (concat pending) \<and>
             runWorkers pf pending sched allResults =
               Inr (allResults @ concat (map (rowsOf pf) order)))"

text \<open>
  What a run of the workers comes to: undefined behaviour when a pending file has it,
  else a merged result that holds the rows gathered so far and the rows of every pending
  file.
\<close>

definition workersOutcome ::
  "(nat \<Rightarrow> failure + ResultRow list) \<Rightarrow> nat list list \<Rightarrow> nat list \<Rightarrow> ResultRow list \<Rightarrow> bool" where
  "workersOutcome pf pending sched allResults \<longleftrightarrow>
     (if \<exists>i \<in> set (concat pending). pf i = Inl UndefinedBehaviour
      then runWorkers pf pending sched allResults = Inl UndefinedBehaviour
      else \<exists>merged. runWorkers pf pending sched allResults = Inr merged \<and>
             mset merged = mset allResults + rowsOfAll pf (mset (concat pending)))"

text \<open>
  The nodes of a document in document order, as the tree walk visits them, and what it
  is for a node to directly parent an element of a name: one of its children is such an
  element.
\<close>

definition allNodes :: "xml_tree \<Rightarrow> xml_node list" where
  "allNodes doc = searchTree (\<lambda>node. [node]) [] doc"

definition isElementNamed :: "string \<Rightarrow> xml_tree \<Rightarrow> bool" where
  "isElementNamed name t \<longleftrightarrow> tree_type t = node_element \<and> tree_name t = name"

definition hasChildElement :: "xml_node \<Rightarrow> string \<Rightarrow> bool" where
  "hasChildElement node name \<longleftrightarrow> list_ex (isElementNamed name) (tree_children (snd node))"

text \<open>The nodes at which the shorthand walk evaluates the WHERE expression.\<close>

definition contextNodes :: "Query \<Rightarrow> WhereExpr \<Rightarrow> xml_tree \<Rightarrow> xml_node list" where
  "contextNodes query w doc =
     filter (\<lambda>node. shouldEvaluate query w (extractFieldPathFromWhere w) node = Inr True)
       (allNodes doc)"

section \<open>Auxiliary lemmas\<close>

lemma sequence_f_map_Inr_id: "sequence_f (map Inr xs) = Inr xs"
  by (induction xs) auto

lemma sequence_f_Inr_D: "sequence_f rs = Inr xs \<Longrightarrow> rs = map Inr xs"
proof (induction rs arbitrary: xs)
  case Nil
  then show ?case by auto
next
  case (Cons r rs)
  then show ?case by (cases r) (auto split: sum.splits)
qed

lemma sequence_f_Inr: "sequence_f rs = Inr xs \<longleftrightarrow> rs = map Inr xs"
  using sequence_f_Inr_D sequence_f_map_Inr_id by blast


lemma sequence_f_map_Inr: "sequence_f (map (\<lambda>x. Inr (f x)) xs) = Inr (map f xs)"
  by (induction xs) auto


lemma contextPair_Inr:
  "contextPair W filename node f = Inr nv \<Longrightarrow> fst nv = fieldName f \<and> named f"
  by (auto simp: contextPair_def fieldName_def named_def split: if_splits)

lemma contextRow_names:
  assumes "contextRow W filename fs node = Inr row"
  shows "map fst row = map fieldName fs"
proof -
  from assms have eq: "map (contextPair W filename node) fs = map Inr row"
    by (simp add: contextRow_def sequence_f_Inr)
  then have len: "length fs = length row"
    by (metis length_map)
  show ?thesis
  proof (rule nth_equalityI)
    show "length (map fst row) = length (map fieldName fs)" using len by simp
  next
    fix i assume "i < length (map fst row)"
    then have i: "i < length fs" using len by simp
    from eq have "map (contextPair W filename node) fs ! i = map Inr row ! i" by simp
    with i len have "contextPair W filename node (fs ! i) = Inr (row ! i)" by simp
    then have "fst (row ! i) = fieldName (fs ! i)" by (simp add: contextPair_Inr)
    with i len show "map fst row ! i = map fieldName fs ! i" by simp
  qed
qed

lemma plainPair_Inr:
  "plainPair i (f, fr) = Inr nv \<Longrightarrow> fst nv = fieldName f"
  by (auto simp: plainPair_def fieldName_def split: if_splits)

lemma plainRow_names:
  assumes "sequence_f (map (plainPair i) (zip fs frs)) = Inr row" "length frs = length fs"
  shows "map fst row = map fieldName fs"
proof -
  from assms have eq: "map (plainPair i) (zip fs frs) = map Inr row"
    by (simp add: sequence_f_Inr)
  then have "length (zip fs frs) = length row"
    by (metis length_map)
  with assms(2) have len: "length fs = length row" by simp
  show ?thesis
  proof (rule nth_equalityI)
    show "length (map fst row) = length (map fieldName fs)" using len by simp
  next
    fix j assume "j < length (map fst row)"
    then have j: "j < length fs" using len by simp
    from eq have "map (plainPair i) (zip fs frs) ! j = map Inr row ! j" by simp
    with j len assms(2) have "plainPair i (fs ! j, frs ! j) = Inr (row ! j)" by simp
    then have "fst (row ! j) = fieldName (fs ! j)" by (rule plainPair_Inr)
    with j len show "map fst row ! j = map fieldName fs ! j" by simp
  qed
qed

lemma searchTree_members:
  "x \<in> set (searchTree visit p t) \<Longrightarrow> \<exists>node. x \<in> set (visit node)"
  "x \<in> set (searchTree_children visit p i cs) \<Longrightarrow> \<exists>node. x \<in> set (visit node)"
  by (induction visit p t and visit p i cs rule: searchTree_searchTree_children.induct) auto

lemma visitNode_members:
  "x \<in> set (visitNode W query filename w whereField node) \<Longrightarrow>
     (\<exists>e. x = Inl e) \<or> x = contextRow W filename (select_fields query) node"
  by (auto simp: visitNode_def split: sum.splits bool.splits if_splits)

lemma sequence_f_member:
  "sequence_f rs = Inr xs \<Longrightarrow> x \<in> set xs \<Longrightarrow> Inr x \<in> set rs"
  by (auto simp: sequence_f_Inr)

lemma plainPair_named:
  "named f \<Longrightarrow> plainPair i (f, fr) = Inr (fieldName f, plainCell fr i)"
  by (auto simp: plainPair_def fieldName_def named_def plainCell_def)

lemma plainRow_named:
  assumes "\<forall>f \<in> set fs. named f"
  shows "sequence_f (map (plainPair i) (zip fs frs)) =
         Inr (map (\<lambda>ffr. (fieldName (fst ffr), plainCell (snd ffr) i)) (zip fs frs))"
proof -
  have "map (plainPair i) (zip fs frs) =
        map (\<lambda>ffr. Inr (fieldName (fst ffr), plainCell (snd ffr) i)) (zip fs frs)"
  proof (rule map_cong[OF refl])
    fix ffr assume "ffr \<in> set (zip fs frs)"
    then have "(fst ffr, snd ffr) \<in> set (zip fs frs)" by simp
    then have "fst ffr \<in> set fs" by (rule set_zip_leftD)
    with assms have "named (fst ffr)" by blast
    then show "plainPair i ffr = Inr (fieldName (fst ffr), plainCell (snd ffr) i)"
      using plainPair_named[of "fst ffr" i "snd ffr"] by simp
  qed
  then have "sequence_f (map (plainPair i) (zip fs frs)) =
             sequence_f (map (\<lambda>ffr. Inr (fieldName (fst ffr), plainCell (snd ffr) i)) (zip fs frs))"
    by (rule arg_cong)
  then show ?thesis by (simp only: sequence_f_map_Inr)
qed

lemma foldl_max_Max:
  "foldl (\<lambda>m fr. max m (length fr)) a frs = Max (insert a (length ` set frs))"
proof -
  have "(\<lambda>(fr :: 'a list) m. max m (length fr)) = (\<lambda>fr. max (length fr))"
    by (intro ext) (simp add: max.commute)
  then have "foldl (\<lambda>m fr. max m (length fr)) a frs = fold max (map length frs) a"
    by (simp add: foldl_conv_fold fold_map comp_def)
  also have "\<dots> = Max (set (a # map length frs))"
    by (simp only: Max.set_eq_fold)
  finally show ?thesis by simp
qed

lemma zip_map_self: "zip xs (map f xs) = map (\<lambda>x. (x, f x)) xs"
  by (induction xs) auto

lemma workerFiles_step:
  "0 < threadCount \<Longrightarrow> fileIdx < n \<Longrightarrow>
     workerFiles fileIdx threadCount n = fileIdx # workerFiles (fileIdx + threadCount) threadCount n"
  "0 < threadCount \<Longrightarrow> \<not> fileIdx < n \<Longrightarrow> workerFiles fileIdx threadCount n = []"
  by (simp_all add: workerFiles.simps[of fileIdx threadCount n])

lemma count_workerFiles:
  "0 < threadCount \<Longrightarrow>
   count (mset (workerFiles fileIdx threadCount n)) i =
     (if i < n \<and> fileIdx \<le> i \<and> i mod threadCount = fileIdx mod threadCount then 1 else 0)"
proof (induction fileIdx threadCount n rule: workerFiles.induct)
  case (1 fileIdx threadCount n)
  show ?case
  proof (cases "fileIdx < n")
    case False
    then have "workerFiles fileIdx threadCount n = []"
      using "1.prems" by (simp add: workerFiles_step)
    with False show ?thesis by simp
  next
    case True
    have step: "fileIdx + threadCount \<le> i \<and> i mod threadCount = fileIdx mod threadCount
                \<longleftrightarrow> fileIdx \<le> i \<and> i mod threadCount = fileIdx mod threadCount" if "i \<noteq> fileIdx"
    proof
      assume "fileIdx + threadCount \<le> i \<and> i mod threadCount = fileIdx mod threadCount"
      then show "fileIdx \<le> i \<and> i mod threadCount = fileIdx mod threadCount" by simp
    next
      assume a: "fileIdx \<le> i \<and> i mod threadCount = fileIdx mod threadCount"
      with that have lt: "fileIdx < i" by simp
      from a have "threadCount dvd i - fileIdx"
        by (metis mod_eq_dvd_iff_nat)
      with lt have "threadCount \<le> i - fileIdx" by (simp add: dvd_imp_le)
      with lt have "fileIdx + threadCount \<le> i" by linarith
      with a show "fileIdx + threadCount \<le> i \<and> i mod threadCount = fileIdx mod threadCount"
        by simp
    qed
    have wf: "workerFiles fileIdx threadCount n =
              fileIdx # workerFiles (fileIdx + threadCount) threadCount n"
      using True "1.prems" by (simp add: workerFiles_step)
    have "threadCount \<noteq> 0" using "1.prems" by simp
    from "1.IH"[OF this True "1.prems"]
    have ih: "count (mset (workerFiles (fileIdx + threadCount) threadCount n)) i =
          (if i < n \<and> fileIdx + threadCount \<le> i \<and>
              i mod threadCount = fileIdx mod threadCount then 1 else 0)"
      by simp
    show ?thesis
    proof (cases "i = fileIdx")
      case True
      have "\<not> fileIdx + threadCount \<le> i" using True "1.prems" by simp
      then have "count (mset (workerFiles (fileIdx + threadCount) threadCount n)) i = 0"
        by (simp only: ih) simp
      with True \<open>fileIdx < n\<close> show ?thesis by (simp add: wf)
    next
      case False
      have "count (mset (workerFiles fileIdx threadCount n)) i =
            count (mset (workerFiles (fileIdx + threadCount) threadCount n)) i"
        using False by (simp add: wf)
      also have "\<dots> = (if i < n \<and> (fileIdx + threadCount \<le> i \<and>
              i mod threadCount = fileIdx mod threadCount) then 1 else 0)"
        by (simp add: ih)
      also have "\<dots> = (if i < n \<and> (fileIdx \<le> i \<and>
              i mod threadCount = fileIdx mod threadCount) then 1 else 0)"
        by (simp only: step[OF False])
      finally show ?thesis by simp
    qed
  qed
qed

lemma workerFiles_member:
  assumes "0 < threadCount" "threadId < threadCount"
  shows "i \<in> set (workerFiles threadId threadCount n) \<longleftrightarrow> i < n \<and> i mod threadCount = threadId"
proof -
  have "i \<in> set (workerFiles threadId threadCount n) \<longleftrightarrow>
        0 < count (mset (workerFiles threadId threadCount n)) i"
    by simp
  also have "\<dots> \<longleftrightarrow> i < n \<and> threadId \<le> i \<and> i mod threadCount = threadId mod threadCount"
    by (simp only: count_workerFiles[OF assms(1)]) simp
  also have "\<dots> \<longleftrightarrow> i < n \<and> i mod threadCount = threadId"
    using assms(2) mod_less_eq_dividend[of i threadCount] by auto
  finally show ?thesis .
qed

lemma workerFiles_distinct:
  assumes "0 < threadCount"
  shows "distinct (workerFiles threadId threadCount n)"
proof -
  have le1: "count (mset (workerFiles threadId threadCount n)) i \<le> 1" for i
    by (simp only: count_workerFiles[OF assms]) simp
  have "count (mset (workerFiles threadId threadCount n)) i =
        (if i \<in> set (workerFiles threadId threadCount n) then 1 else 0)" for i
  proof (cases "i \<in> set (workerFiles threadId threadCount n)")
    case True
    then have "0 < count (mset (workerFiles threadId threadCount n)) i" by simp
    with le1[of i] have "count (mset (workerFiles threadId threadCount n)) i = 1" by linarith
    then show ?thesis by (simp only: True if_True)
  next
    case False
    then show ?thesis by simp
  qed
  then show ?thesis unfolding distinct_count_atmost_1 by blast
qed

lemma count_sum_list_mset:
  "count (sum_list ms) x = sum_list (map (\<lambda>m. count m x) ms)"
  by (induction ms) auto

lemma workerFiles_partition:
  assumes "0 < threadCount"
  shows "mset (concat (map (\<lambda>threadId. workerFiles threadId threadCount n) [0 ..< threadCount]))
         = mset [0 ..< n]"
proof (rule multiset_eqI)
  fix i
  let ?g = "\<lambda>threadId. workerFiles threadId threadCount n"
  have "count (mset (concat (map ?g [0 ..< threadCount]))) i =
        sum_list (map (\<lambda>threadId. count (mset (?g threadId)) i) [0 ..< threadCount])"
    by (simp add: mset_concat count_sum_list_mset comp_def)
  also have "\<dots> = (\<Sum>threadId \<in> {0 ..< threadCount}. count (mset (?g threadId)) i)"
    by (simp add: interv_sum_list_conv_sum_set_nat)
  also have "\<dots> = (\<Sum>threadId \<in> {0 ..< threadCount}.
                    if threadId = i mod threadCount then (if i < n then 1 else 0) else 0)"
  proof (rule sum.cong[OF refl])
    fix threadId assume "threadId \<in> {0 ..< threadCount}"
    then have lt: "threadId < threadCount" by simp
    then have "threadId \<le> i" if "i mod threadCount = threadId"
      using that mod_less_eq_dividend[of i threadCount] by simp
    then show "count (mset (?g threadId)) i =
          (if threadId = i mod threadCount then (if i < n then 1 else 0) else 0)"
      using lt by (auto simp: count_workerFiles[OF assms])
  qed
  also have "\<dots> = (if i < n then 1 else 0)"
    using assms by (simp add: sum.delta)
  also have "\<dots> = count (mset [0 ..< n]) i"
    by (simp add: count_mset_0_iff[symmetric] del: count_mset_0_iff) 
  finally show "count (mset (concat (map ?g [0 ..< threadCount]))) i = count (mset [0 ..< n]) i" .
qed


lemma rowsOfAll_simps:
  "rowsOfAll pf {#} = {#}"
  "rowsOfAll pf (add_mset x X) = mset (rowsOf pf x) + rowsOfAll pf X"
  "rowsOfAll pf (X + Y) = rowsOfAll pf X + rowsOfAll pf Y"
  by (simp_all add: rowsOfAll_def)

lemma mset_concat_update:
  assumes "k < length pending" "pending ! k = x # rest"
  shows "mset (concat pending) = add_mset x (mset (concat (pending[k := rest])))"
proof -
  have "pending = take k pending @ (x # rest) # drop (Suc k) pending"
    using assms by (metis id_take_nth_drop)
  moreover have "pending[k := rest] = take k pending @ rest # drop (Suc k) pending"
    using assms(1) by (rule upd_conv_take_nth_drop)
  ultimately show ?thesis
    by (metis (no_types, lifting) append_Cons concat.simps(2) concat_append mset.simps(2)
        union_mset_add_mset_left union_mset_add_mset_right mset_append)
qed

lemma rowsOf_simps:
  "pf x = Inr fileResults \<Longrightarrow> rowsOf pf x = fileResults"
  "pf x = Inl e \<Longrightarrow> rowsOf pf x = []"
  by (simp_all add: rowsOf_def)

lemma workersOutcome_step:
  assumes "workersOutcome pf pending' sched allResults'"
    and "mset (concat pending) = add_mset fileIdx (mset (concat pending'))"
    and "pf fileIdx \<noteq> Inl UndefinedBehaviour"
    and "mset allResults' = mset allResults + mset (rowsOf pf fileIdx)"
    and "runWorkers pf pending sched0 allResults = runWorkers pf pending' sched allResults'"
  shows "workersOutcome pf pending sched0 allResults"
proof -
  from assms(2) have st: "set (concat pending) = insert fileIdx (set (concat pending'))"
    by (metis set_mset_add_mset_insert set_mset_mset)
  have ub: "(\<exists>i \<in> set (concat pending). pf i = Inl UndefinedBehaviour) \<longleftrightarrow>
            (\<exists>i \<in> set (concat pending'). pf i = Inl UndefinedBehaviour)"
    using assms(3) by (simp only: st) auto
  have rows: "mset allResults + rowsOfAll pf (mset (concat pending)) =
              mset allResults' + rowsOfAll pf (mset (concat pending'))"
    by (simp only: assms(2) assms(4) rowsOfAll_simps) simp
  from assms(1) show ?thesis
    unfolding workersOutcome_def by (simp only: ub rows assms(5))
qed

lemma workersOutcome_undefined:
  assumes "fileIdx \<in> set (concat pending)" and "pf fileIdx = Inl UndefinedBehaviour"
    and "runWorkers pf pending sched allResults = Inl UndefinedBehaviour"
  shows "workersOutcome pf pending sched allResults"
  using assms unfolding workersOutcome_def by auto

lemma runWorkers_result: "workersOutcome pf pending sched allResults"
proof (induction pf pending sched allResults rule: runWorkers.induct)
  case (1 pf allResults)
  then show ?case by (simp add: workersOutcome_def rowsOfAll_simps)
next
  case (2 pf pending allResults)
  then show ?case by (simp add: workersOutcome_def)
next
  case (3 pf fileIdx remaining pending allResults)
  have ms: "mset (concat ((fileIdx # remaining) # pending)) =
            add_mset fileIdx (mset (concat (remaining # pending)))"
    by simp
  show ?case
  proof (cases "pf fileIdx")
    case (Inr fileResults)
    with "3.IH" have ih: "workersOutcome pf (remaining # pending) [] (allResults @ fileResults)"
      by blast
    from ih ms show ?thesis
      by (rule workersOutcome_step) (simp_all add: Inr rowsOf_simps)
  next
    case (Inl e)
    show ?thesis
    proof (cases e)
      case Exception
      with Inl "3.IH" have ih: "workersOutcome pf (remaining # pending) [] allResults"
        by blast
      from ih ms show ?thesis
        by (rule workersOutcome_step) (simp_all add: Inl Exception rowsOf_simps)
    next
      case UndefinedBehaviour
      with Inl show ?thesis
        by (intro workersOutcome_undefined[of fileIdx]) simp_all
    qed
  qed
next
  case (4 pf pending threadId sched allResults)
  show ?case
  proof (cases "threadId < length pending")
    case False
    with "4.IH" have "workersOutcome pf pending sched allResults" by blast
    with False show ?thesis by (simp add: workersOutcome_def)
  next
    case True
    show ?thesis
    proof (cases "pending ! threadId")
      case Nil
      with True "4.IH" have "workersOutcome pf pending sched allResults" by blast
      with True Nil show ?thesis by (simp add: workersOutcome_def)
    next
      case (Cons fileIdx remaining)
      have ms: "mset (concat pending) =
                add_mset fileIdx (mset (concat (pending[threadId := remaining])))"
        using True Cons by (rule mset_concat_update)
      show ?thesis
      proof (cases "pf fileIdx")
        case (Inr fileResults)
        with True Cons "4.IH" have
          ih: "workersOutcome pf (pending[threadId := remaining]) sched (allResults @ fileResults)"
          by blast
        from ih ms show ?thesis
          by (rule workersOutcome_step) (simp_all add: Inr True Cons rowsOf_simps)
      next
        case (Inl e)
        show ?thesis
        proof (cases e)
          case Exception
          with Inl True Cons "4.IH" have
            ih: "workersOutcome pf (pending[threadId := remaining]) sched allResults"
            by blast
          from ih ms show ?thesis
            by (rule workersOutcome_step) (simp_all add: Inl Exception True Cons rowsOf_simps)
        next
          case UndefinedBehaviour
          have "fileIdx \<in> set (concat pending)"
            using ms by (metis set_mset_mset union_single_eq_member)
          then show ?thesis
            by (rule workersOutcome_undefined) (simp_all add: Inl UndefinedBehaviour True Cons)
        qed
      qed
    qed
  qed
qed

lemma processFiles_result:
  "processFiles W query files allResults =
     (if \<exists>f \<in> set files. processFile W f query = Inl UndefinedBehaviour
      then Inl UndefinedBehaviour
      else Inr (allResults @ concat (map (rowsOf (\<lambda>f. processFile W f query)) files)))"
proof (induction files arbitrary: allResults)
  case Nil
  then show ?case by simp
next
  case (Cons f files)
  show ?case
  proof (cases "processFile W f query")
    case (Inr fileResults)
    then have "rowsOf (\<lambda>f. processFile W f query) f = fileResults" by (simp add: rowsOf_simps)
    with Inr show ?thesis by (simp add: Cons)
  next
    case (Inl e)
    then have r: "rowsOf (\<lambda>f. processFile W f query) f = []" by (simp add: rowsOf_simps)
    show ?thesis
    proof (cases e)
      case Exception
      with Inl r show ?thesis by (simp add: Cons)
    next
      case UndefinedBehaviour
      with Inl show ?thesis by simp
    qed
  qed
qed

lemma rowsOfAll_mset_list:
  "rowsOfAll pf (mset xs) = mset (concat (map (rowsOf pf) xs))"
  by (induction xs) (simp_all add: rowsOfAll_simps)

lemma rowsOfAll_index:
  "rowsOfAll (\<lambda>i. pf (xs ! i)) (mset [0 ..< length xs]) = rowsOfAll pf (mset xs)"
proof -
  have r: "rowsOf (\<lambda>i. pf (xs ! i)) i = rowsOf pf (xs ! i)" for i
    by (simp add: rowsOf_def)
  have "map (rowsOf (\<lambda>i. pf (xs ! i))) [0 ..< length xs] =
        map (rowsOf pf) (map (\<lambda>i. xs ! i) [0 ..< length xs])"
    by (simp add: r)
  also have "\<dots> = map (rowsOf pf) xs" by (simp only: map_nth)
  finally show ?thesis by (simp only: rowsOfAll_mset_list)
qed

lemma executeMultithreaded_result:
  assumes "0 < threadCount"
  shows "(if \<exists>f \<in> set xmlFiles. processFile W f query = Inl UndefinedBehaviour
          then executeMultithreaded W xmlFiles query threadCount sched = Inl UndefinedBehaviour
          else \<exists>merged. executeMultithreaded W xmlFiles query threadCount sched = Inr merged \<and>
                 mset merged = rowsOfAll (\<lambda>f. processFile W f query) (mset xmlFiles))"
proof -
  let ?pf = "\<lambda>fileIdx. processFile W (xmlFiles ! fileIdx) query"
  let ?pending = "map (\<lambda>threadId. workerFiles threadId threadCount (length xmlFiles)) [0 ..< threadCount]"
  have part: "mset (concat ?pending) = mset [0 ..< length xmlFiles]"
    using assms by (rule workerFiles_partition)
  then have "set (concat ?pending) = set [0 ..< length xmlFiles]"
    by (metis set_mset_mset)
  then have ex: "(\<exists>i \<in> set (concat ?pending). ?pf i = Inl UndefinedBehaviour) \<longleftrightarrow>
             (\<exists>f \<in> set xmlFiles. processFile W f query = Inl UndefinedBehaviour)"
    by (simp only: set_conv_nth) auto
  have rows: "rowsOfAll ?pf (mset (concat ?pending)) = rowsOfAll (\<lambda>f. processFile W f query) (mset xmlFiles)"
    using rowsOfAll_index[of "\<lambda>f. processFile W f query" xmlFiles] by (simp only: part)
  show ?thesis
    using runWorkers_result[of ?pf ?pending sched "[]"]
    unfolding executeMultithreaded_def workersOutcome_def ex rows by (auto split: if_splits)
qed














lemma processFilesWithProgress_rows:
  "(case processFilesWithProgress W query cb files i n acc calls of
      Inl e \<Rightarrow> Inl e | Inr rc \<Rightarrow> Inr (fst rc)) = processFiles W query files acc"
proof (induction files arbitrary: i acc calls)
  case Nil
  then show ?case by simp
next
  case (Cons f files)
  show ?case
  proof (cases "processFile W f query")
    case (Inl e)
    then show ?thesis using Cons by (cases e) simp_all
  next
    case (Inr rows)
    then show ?thesis using Cons by simp
  qed
qed

lemma processFilesWithProgress_no_callback:
  "processFilesWithProgress W query False files i n acc calls =
     (case processFiles W query files acc of Inl e \<Rightarrow> Inl e | Inr rows \<Rightarrow> Inr (rows, calls))"
proof (induction files arbitrary: i acc)
  case Nil
  then show ?case by simp
next
  case (Cons f files)
  show ?case
  proof (cases "processFile W f query")
    case (Inl e)
    then show ?thesis using Cons by (cases e) simp_all
  next
    case (Inr rows)
    then show ?thesis using Cons by simp
  qed
qed

lemma executeWithProgress_Inr:
  assumes "getXmlFiles W (from_path query) \<noteq> []"
    and "executeWithProgress W query cb stats sched polls = Inr (result, st, calls)"
  shows "\<exists>allResults.
           gatherResults W query cb (getXmlFiles W (from_path query))
             (shouldUseThreading (length (getXmlFiles W (from_path query))))
             (if shouldUseThreading (length (getXmlFiles W (from_path query)))
              then getOptimalThreadCount W else 1) sched polls = Inr (allResults, calls) \<and>
           postProcess W query allResults = Inr result \<and>
           st = map_option (\<lambda>s. s\<lparr>total_files := length (getXmlFiles W (from_path query)),
                  thread_count := (if shouldUseThreading (length (getXmlFiles W (from_path query)))
                                   then getOptimalThreadCount W else 1),
                  used_threading := shouldUseThreading (length (getXmlFiles W (from_path query))),
                  execution_time_seconds := elapsed W\<rparr>) stats"
proof -
  let ?files = "getXmlFiles W (from_path query)"
  let ?thr = "shouldUseThreading (length ?files)"
  let ?tc = "if ?thr then getOptimalThreadCount W else 1"
  let ?g = "gatherResults W query cb ?files ?thr ?tc sched polls"
  let ?st = "map_option (statsFinished (elapsed W))
               (map_option (statsStarted (length ?files) ?tc ?thr) stats)"
  have unfold: "executeWithProgress W query cb stats sched polls =
      (case ?g of
         Inl e \<Rightarrow> Inl e
       | Inr gathered \<Rightarrow>
           (case postProcess W query (fst gathered) of
              Inl e \<Rightarrow> Inl e
            | Inr finalResults \<Rightarrow> Inr (finalResults, ?st, snd gathered)))"
    unfolding executeWithProgress_def Let_def using assms(1) by (simp only: if_False)
  have st: "?st = map_option (\<lambda>s. s\<lparr>total_files := length ?files, thread_count := ?tc,
                  used_threading := ?thr, execution_time_seconds := elapsed W\<rparr>) stats"
    by (cases stats) (simp_all add: statsFinished_def statsStarted_def)
  show ?thesis
  proof (cases ?g)
    case (Inl e)
    with unfold assms(2) show ?thesis by simp
  next
    case (Inr rc)
    show ?thesis
    proof (cases "postProcess W query (fst rc)")
      case (Inl e)
      with unfold assms(2) Inr show ?thesis by simp
    next
      case pp: (Inr finalResults)
      with unfold assms(2) Inr have "finalResults = result" "?st = st" "snd rc = calls"
        by simp_all
      with Inr pp st show ?thesis by (intro exI[of _ "fst rc"]) (simp add: prod_eq_iff)
    qed
  qed
qed

lemma postProcess_Inr:
  assumes "postProcess W query allResults = Inr result"
  shows "\<exists>sortedRows. applyOrderBy W query allResults = Inr sortedRows \<and>
           (0 \<le> limit query \<and> nat (limit query) < length sortedRows
              \<longrightarrow> result = take (nat (limit query)) sortedRows) \<and>
           (\<not> (0 \<le> limit query \<and> nat (limit query) < length sortedRows)
              \<longrightarrow> result = sortedRows)"
proof (cases "applyOrderBy W query allResults")
  case (Inl e)
  with assms show ?thesis by (simp add: postProcess_def)
next
  case (Inr sortedRows)
  with assms have "result = applyLimit query sortedRows" by (simp add: postProcess_def)
  with Inr show ?thesis by (simp add: applyLimit_def)
qed

lemma gatherResults_threaded:
  assumes "gatherResults W query cb files True tc sched polls = Inr (allResults, calls)"
  shows "executeMultithreaded W files query tc sched = Inr allResults"
  using assms
  by (cases "executeMultithreaded W files query tc sched") (simp_all add: gatherResults_def Let_def)

lemma gatherResults_sequential:
  assumes "gatherResults W query cb files False tc sched polls = Inr (allResults, calls)"
  shows "processFiles W query files [] = Inr allResults"
proof -
  have "processFiles W query files [] =
        (case processFilesWithProgress W query cb files 0 (length files) [] [] of
           Inl e \<Rightarrow> Inl e | Inr rc \<Rightarrow> Inr (fst rc))"
    by (simp only: processFilesWithProgress_rows)
  with assms show ?thesis by (simp add: gatherResults_def Let_def)
qed

lemma string_less_irrefl: "\<not> string_less a a"
  by (induction a) simp_all

lemma string_less_trans: "string_less a b \<Longrightarrow> string_less b c \<Longrightarrow> string_less a c"
proof (induction a b arbitrary: c rule: string_less.induct)
  case 1
  then show ?case by simp
next
  case (2 y ys)
  then show ?case by (cases c) simp_all
next
  case (3 x xs)
  then show ?case by simp
next
  case (4 x xs y ys)
  show ?case
  proof (cases c)
    case Nil
    with 4 show ?thesis by simp
  next
    case (Cons z zs)
    with "4.prems" "4.IH" show ?thesis
      by (auto split: if_splits)
  qed
qed

lemma string_less_total: "\<not> string_less a b \<Longrightarrow> \<not> string_less b a \<Longrightarrow> a = b"
proof (induction a b rule: string_less.induct)
  case (4 x xs y ys)
  then have "(of_char x :: nat) = of_char y" by (auto split: if_splits)
  then have "x = y" by simp
  with 4 show ?case by (auto split: if_splits)
qed simp_all

lemma swo_iff:
  "strict_weak_order cmp xs \<longleftrightarrow>
     (\<forall>a \<in> set xs. \<not> cmp a a) \<and>
     (\<forall>a \<in> set xs. \<forall>b \<in> set xs. \<forall>c \<in> set xs. cmp a b \<and> cmp b c \<longrightarrow> cmp a c) \<and>
     (\<forall>a \<in> set xs. \<forall>b \<in> set xs. \<forall>c \<in> set xs.
        \<not> cmp a b \<and> \<not> cmp b a \<and> \<not> cmp b c \<and> \<not> cmp c b \<longrightarrow> \<not> cmp a c \<and> \<not> cmp c a)"
  by (simp add: strict_weak_order_def list_all_iff)

lemma swo_string_less: "strict_weak_order string_less ys"
  unfolding swo_iff
proof (intro conjI ballI impI)
  fix a show "\<not> string_less a a" by (rule string_less_irrefl)
next
  fix a b c assume "string_less a b \<and> string_less b c"
  then show "string_less a c" by (blast intro: string_less_trans)
next
  fix a b c
  assume h: "\<not> string_less a b \<and> \<not> string_less b a \<and> \<not> string_less b c \<and> \<not> string_less c b"
  then have "a = b" "b = c" by (simp_all add: string_less_total)
  then show "\<not> string_less a c" "\<not> string_less c a" by (simp_all add: string_less_irrefl)
qed

lemma swo_transfer:
  assumes "\<And>a b. a \<in> set xs \<Longrightarrow> b \<in> set xs \<Longrightarrow> cmp a b = cmp' (g a) (g b)"
    and "strict_weak_order cmp' (map g xs)"
  shows "strict_weak_order cmp xs"
proof -
  from assms(2) have
    i: "\<And>a. a \<in> set xs \<Longrightarrow> \<not> cmp' (g a) (g a)" and
    t: "\<And>a b c. a \<in> set xs \<Longrightarrow> b \<in> set xs \<Longrightarrow> c \<in> set xs \<Longrightarrow>
          cmp' (g a) (g b) \<Longrightarrow> cmp' (g b) (g c) \<Longrightarrow> cmp' (g a) (g c)" and
    e: "\<And>a b c. a \<in> set xs \<Longrightarrow> b \<in> set xs \<Longrightarrow> c \<in> set xs \<Longrightarrow>
          \<not> cmp' (g a) (g b) \<Longrightarrow> \<not> cmp' (g b) (g a) \<Longrightarrow> \<not> cmp' (g b) (g c) \<Longrightarrow>
          \<not> cmp' (g c) (g b) \<Longrightarrow> \<not> cmp' (g a) (g c) \<and> \<not> cmp' (g c) (g a)"
    unfolding swo_iff set_map by blast+
  show ?thesis
    unfolding swo_iff
  proof (intro conjI ballI impI)
    fix a assume "a \<in> set xs"
    then show "\<not> cmp a a" using i assms(1) by simp
  next
    fix a b c assume m: "a \<in> set xs" "b \<in> set xs" "c \<in> set xs" and "cmp a b \<and> cmp b c"
    then have "cmp' (g a) (g b)" "cmp' (g b) (g c)" using assms(1) by simp_all
    with m have "cmp' (g a) (g c)" by (rule t)
    with m show "cmp a c" using assms(1) by simp
  next
    fix a b c assume m: "a \<in> set xs" "b \<in> set xs" "c \<in> set xs"
      and h: "\<not> cmp a b \<and> \<not> cmp b a \<and> \<not> cmp b c \<and> \<not> cmp c b"
    then have "\<not> cmp' (g a) (g b)" "\<not> cmp' (g b) (g a)" "\<not> cmp' (g b) (g c)" "\<not> cmp' (g c) (g b)"
      using assms(1) by simp_all
    with m have "\<not> cmp' (g a) (g c) \<and> \<not> cmp' (g c) (g a)" by (rule e)
    with m show "\<not> cmp a c" "\<not> cmp c a" using assms(1) by simp_all
  qed
qed

lemma rowLess_numeric:
  "stod W (orderValue f a) = Some x \<Longrightarrow> stod W (orderValue f b) = Some y \<Longrightarrow>
     rowLess W f a b = double_less W x y"
  by (simp add: rowLess_def)

lemma rowLess_strings:
  "stod W (orderValue f a) = None \<or> stod W (orderValue f b) = None \<Longrightarrow>
     rowLess W f a b = string_less (orderValue f a) (orderValue f b)"
  by (auto simp: rowLess_def Let_def split: option.splits)

lemma orderValue_map_of:
  "orderValue orderField row = (case map_of row orderField of None \<Rightarrow> [] | Some v \<Rightarrow> v)"
  by (induction row) auto

lemma swo_transitive:
  "strict_weak_order cmp xs \<Longrightarrow> a \<in> set xs \<Longrightarrow> b \<in> set xs \<Longrightarrow> c \<in> set xs \<Longrightarrow>
     cmp a b \<Longrightarrow> cmp b c \<Longrightarrow> cmp a c"
  unfolding swo_iff by blast

text \<open>The merged result of the workers, block by block.\<close>

lemma fileRows_rowsOf: "rowsOf (\<lambda>f. processFile W f query) filepath = fileRows W query filepath"
  by (simp add: rowsOf_def fileRows_def)

lemma workersBlocks_step:
  assumes "workersBlocks pf pending' sched allResults'"
    and "mset (concat pending) = add_mset fileIdx (mset (concat pending'))"
    and "pf fileIdx \<noteq> Inl UndefinedBehaviour"
    and "allResults' = allResults @ rowsOf pf fileIdx"
    and "runWorkers pf pending sched0 allResults = runWorkers pf pending' sched allResults'"
  shows "workersBlocks pf pending sched0 allResults"
proof -
  from assms(2) have st: "set (concat pending) = insert fileIdx (set (concat pending'))"
    by (metis set_mset_add_mset_insert set_mset_mset)
  have ub: "(\<exists>i \<in> set (concat pending). pf i = Inl UndefinedBehaviour) \<longleftrightarrow>
            (\<exists>i \<in> set (concat pending'). pf i = Inl UndefinedBehaviour)"
    using assms(3) by (simp only: st) auto
  show ?thesis
  proof (cases "\<exists>i \<in> set (concat pending'). pf i = Inl UndefinedBehaviour")
    case True
    with assms(1) have "runWorkers pf pending' sched allResults' = Inl UndefinedBehaviour"
      by (simp only: workersBlocks_def if_True)
    with True ub show ?thesis by (simp only: workersBlocks_def assms(5) if_True)
  next
    case False
    with assms(1) obtain order where o: "mset order = mset (concat pending')"
      and r: "runWorkers pf pending' sched allResults' =
               Inr (allResults' @ concat (map (rowsOf pf) order))"
      by (simp only: workersBlocks_def if_False) blast
    from o assms(2) have "mset (fileIdx # order) = mset (concat pending)" by simp
    moreover from r have "runWorkers pf pending sched0 allResults =
        Inr (allResults @ concat (map (rowsOf pf) (fileIdx # order)))"
      by (simp add: assms(4,5))
    ultimately have "\<exists>order. mset order = mset (concat pending) \<and>
        runWorkers pf pending sched0 allResults = Inr (allResults @ concat (map (rowsOf pf) order))"
      by blast
    with False ub show ?thesis by (simp only: workersBlocks_def if_False)
  qed
qed

lemma workersBlocks_undefined:
  assumes "fileIdx \<in> set (concat pending)" and "pf fileIdx = Inl UndefinedBehaviour"
    and "runWorkers pf pending sched allResults = Inl UndefinedBehaviour"
  shows "workersBlocks pf pending sched allResults"
  using assms unfolding workersBlocks_def by auto

lemma runWorkers_blocks: "workersBlocks pf pending sched allResults"
proof (induction pf pending sched allResults rule: runWorkers.induct)
  case (1 pf allResults)
  then show ?case by (simp add: workersBlocks_def)
next
  case (2 pf pending allResults)
  then show ?case by (simp add: workersBlocks_def)
next
  case (3 pf fileIdx remaining pending allResults)
  have ms: "mset (concat ((fileIdx # remaining) # pending)) =
            add_mset fileIdx (mset (concat (remaining # pending)))"
    by simp
  show ?case
  proof (cases "pf fileIdx")
    case (Inr fileResults)
    with "3.IH" have ih: "workersBlocks pf (remaining # pending) [] (allResults @ fileResults)"
      by blast
    from ih ms show ?thesis
      by (rule workersBlocks_step) (simp_all add: Inr rowsOf_simps)
  next
    case (Inl e)
    show ?thesis
    proof (cases e)
      case Exception
      with Inl "3.IH" have ih: "workersBlocks pf (remaining # pending) [] allResults"
        by blast
      from ih ms show ?thesis
        by (rule workersBlocks_step) (simp_all add: Inl Exception rowsOf_simps)
    next
      case UndefinedBehaviour
      with Inl show ?thesis
        by (intro workersBlocks_undefined[of fileIdx]) simp_all
    qed
  qed
next
  case (4 pf pending threadId sched allResults)
  show ?case
  proof (cases "threadId < length pending")
    case False
    with "4.IH" have "workersBlocks pf pending sched allResults" by blast
    with False show ?thesis by (simp add: workersBlocks_def)
  next
    case True
    show ?thesis
    proof (cases "pending ! threadId")
      case Nil
      with True "4.IH" have "workersBlocks pf pending sched allResults" by blast
      with True Nil show ?thesis by (simp add: workersBlocks_def)
    next
      case (Cons fileIdx remaining)
      have ms: "mset (concat pending) =
                add_mset fileIdx (mset (concat (pending[threadId := remaining])))"
        using True Cons by (rule mset_concat_update)
      show ?thesis
      proof (cases "pf fileIdx")
        case (Inr fileResults)
        with True Cons "4.IH" have
          ih: "workersBlocks pf (pending[threadId := remaining]) sched (allResults @ fileResults)"
          by blast
        from ih ms show ?thesis
          by (rule workersBlocks_step) (simp_all add: Inr True Cons rowsOf_simps)
      next
        case (Inl e)
        show ?thesis
        proof (cases e)
          case Exception
          with Inl True Cons "4.IH" have
            ih: "workersBlocks pf (pending[threadId := remaining]) sched allResults"
            by blast
          from ih ms show ?thesis
            by (rule workersBlocks_step) (simp_all add: Inl Exception True Cons rowsOf_simps)
        next
          case UndefinedBehaviour
          have "fileIdx \<in> set (concat pending)"
            using ms by (metis set_mset_mset union_single_eq_member)
          then show ?thesis
            by (rule workersBlocks_undefined) (simp_all add: Inl UndefinedBehaviour True Cons)
        qed
      qed
    qed
  qed
qed

lemma executeMultithreaded_blocks:
  assumes "0 < threadCount"
  shows "(if \<exists>f \<in> set xmlFiles. processFile W f query = Inl UndefinedBehaviour
          then executeMultithreaded W xmlFiles query threadCount sched = Inl UndefinedBehaviour
          else \<exists>order. mset order = mset [0 ..< length xmlFiles] \<and>
                 executeMultithreaded W xmlFiles query threadCount sched =
                   Inr (concat (map (\<lambda>fileIdx. fileRows W query (xmlFiles ! fileIdx)) order)))"
proof -
  let ?pf = "\<lambda>fileIdx. processFile W (xmlFiles ! fileIdx) query"
  let ?pending = "map (\<lambda>threadId. workerFiles threadId threadCount (length xmlFiles)) [0 ..< threadCount]"
  have part: "mset (concat ?pending) = mset [0 ..< length xmlFiles]"
    using assms by (rule workerFiles_partition)
  then have "set (concat ?pending) = set [0 ..< length xmlFiles]"
    by (metis set_mset_mset)
  then have ex: "(\<exists>i \<in> set (concat ?pending). ?pf i = Inl UndefinedBehaviour) \<longleftrightarrow>
             (\<exists>f \<in> set xmlFiles. processFile W f query = Inl UndefinedBehaviour)"
    by (simp only: set_conv_nth) auto
  have r: "rowsOf ?pf = (\<lambda>fileIdx. fileRows W query (xmlFiles ! fileIdx))"
    by (intro ext) (simp add: rowsOf_def fileRows_def)
  show ?thesis
    using runWorkers_blocks[of ?pf ?pending sched "[]"]
    unfolding executeMultithreaded_def workersBlocks_def ex part r by (auto split: if_splits)
qed

lemma processFiles_blocks:
  "processFiles W query xmlFiles [] =
     (if \<exists>f \<in> set xmlFiles. processFile W f query = Inl UndefinedBehaviour
      then Inl UndefinedBehaviour
      else Inr (concat (map (\<lambda>fileIdx. fileRows W query (xmlFiles ! fileIdx)) [0 ..< length xmlFiles])))"
proof -
  have "map (\<lambda>fileIdx. fileRows W query (xmlFiles ! fileIdx)) [0 ..< length xmlFiles] =
        map (fileRows W query) (map (\<lambda>i. xmlFiles ! i) [0 ..< length xmlFiles])"
    by simp
  also have "\<dots> = map (fileRows W query) xmlFiles" by (simp only: map_nth)
  finally have m: "map (\<lambda>fileIdx. fileRows W query (xmlFiles ! fileIdx)) [0 ..< length xmlFiles] =
      map (rowsOf (\<lambda>f. processFile W f query)) xmlFiles"
    by (simp add: fileRows_rowsOf)
  show ?thesis by (simp only: processFiles_result m) simp
qed

lemma mset_concat_blocks:
  "mset order = mset order' \<Longrightarrow> mset (concat (map f order)) = mset (concat (map f order'))"
proof -
  assume "mset order = mset order'"
  then have "image_mset (\<lambda>x. mset (f x)) (mset order) = image_mset (\<lambda>x. mset (f x)) (mset order')"
    by simp
  then have "\<Sum>\<^sub># (image_mset (\<lambda>x. mset (f x)) (mset order)) =
             \<Sum>\<^sub># (image_mset (\<lambda>x. mset (f x)) (mset order'))" by simp
  moreover have "mset (concat (map f xs)) = \<Sum>\<^sub># (image_mset (\<lambda>x. mset (f x)) (mset xs))" for xs
    by (induction xs) simp_all
  ultimately show ?thesis by simp
qed






lemma disj_not_right: "A \<or> (B \<and> C) \<Longrightarrow> \<not> B \<Longrightarrow> A"
  by blast

text \<open>
  The comparator on rows whose keys are all numbers, or none of them: the value at the
  column, the two ways of comparing, and the ordering they give.
\<close>

lemma comparator_on_like_keys:
  assumes "\<forall>x. \<not> double_less W x x"
    and "\<forall>x y. double_less W x y \<longrightarrow> \<not> double_less W y x"
  shows "(order_by_fields query = orderField # others \<longrightarrow>
            applyOrderBy W query allResults = std_sort W (rowLess W orderField) allResults) \<and>
         orderValue f a = (case map_of a f of None \<Rightarrow> [] | Some v \<Rightarrow> v) \<and>
         (stod W (orderValue f a) = Some x \<and> stod W (orderValue f b) = Some y \<longrightarrow>
            rowLess W f a b = double_less W x y) \<and>
         (stod W (orderValue f a) = None \<or> stod W (orderValue f b) = None \<longrightarrow>
            rowLess W f a b = string_less (orderValue f a) (orderValue f b)) \<and>
         \<not> rowLess W f a a \<and>
         (rowLess W f a b \<longrightarrow> \<not> rowLess W f b a) \<and>
         ((\<forall>r \<in> set rows. stod W (orderValue f r) = None) \<longrightarrow>
            strict_weak_order (rowLess W f) rows) \<and>
         ((\<forall>r \<in> set rows. stod W (orderValue f r) \<noteq> None) \<and>
          strict_weak_order (double_less W) (map (\<lambda>r. the (stod W (orderValue f r))) rows) \<longrightarrow>
            strict_weak_order (rowLess W f) rows)"
proof (intro conjI impI)
  assume "order_by_fields query = orderField # others"
  then show "applyOrderBy W query allResults = std_sort W (rowLess W orderField) allResults"
    by (simp add: applyOrderBy_def)
next
  show "orderValue f a = (case map_of a f of None \<Rightarrow> [] | Some v \<Rightarrow> v)"
    by (rule orderValue_map_of)
next
  assume "stod W (orderValue f a) = Some x \<and> stod W (orderValue f b) = Some y"
  then show "rowLess W f a b = double_less W x y" by (simp add: rowLess_numeric)
next
  assume "stod W (orderValue f a) = None \<or> stod W (orderValue f b) = None"
  then show "rowLess W f a b = string_less (orderValue f a) (orderValue f b)"
    by (rule rowLess_strings)
next
  show "\<not> rowLess W f a a"
    using assms(1) by (cases "stod W (orderValue f a)") (simp_all add: rowLess_def string_less_irrefl)
next
  assume l: "rowLess W f a b"
  show "\<not> rowLess W f b a"
  proof (cases "stod W (orderValue f a)")
    case None
    with l have "string_less (orderValue f a) (orderValue f b)" by (simp add: rowLess_strings)
    then have "\<not> string_less (orderValue f b) (orderValue f a)"
      using string_less_trans string_less_irrefl by blast
    with None show ?thesis by (simp add: rowLess_strings)
  next
    case (Some x)
    show ?thesis
    proof (cases "stod W (orderValue f b)")
      case None
      with l have "string_less (orderValue f a) (orderValue f b)" by (simp add: rowLess_strings)
      then have "\<not> string_less (orderValue f b) (orderValue f a)"
        using string_less_trans string_less_irrefl by blast
      with None show ?thesis by (simp add: rowLess_strings)
    next
      case y: (Some y)
      with Some l have "double_less W x y" by (simp add: rowLess_numeric)
      with assms(2) have "\<not> double_less W y x" by blast
      with Some y show ?thesis by (simp add: rowLess_numeric)
    qed
  qed
next
  assume none: "\<forall>r \<in> set rows. stod W (orderValue f r) = None"
  show "strict_weak_order (rowLess W f) rows"
  proof (rule swo_transfer[where cmp' = string_less and g = "orderValue f"])
    fix a b assume "a \<in> set rows" "b \<in> set rows"
    with none show "rowLess W f a b = string_less (orderValue f a) (orderValue f b)"
      by (simp add: rowLess_strings)
  next
    show "strict_weak_order string_less (map (orderValue f) rows)" by (rule swo_string_less)
  qed
next
  assume h: "(\<forall>r \<in> set rows. stod W (orderValue f r) \<noteq> None) \<and>
          strict_weak_order (double_less W) (map (\<lambda>r. the (stod W (orderValue f r))) rows)"
  show "strict_weak_order (rowLess W f) rows"
  proof (rule swo_transfer[where cmp' = "double_less W" and g = "\<lambda>r. the (stod W (orderValue f r))"])
    fix a b assume "a \<in> set rows" "b \<in> set rows"
    with h have "stod W (orderValue f a) \<noteq> None" "stod W (orderValue f b) \<noteq> None"
      by blast+
    then obtain x y where "stod W (orderValue f a) = Some x" "stod W (orderValue f b) = Some y"
      by auto
    then show "rowLess W f a b =
        double_less W (the (stod W (orderValue f a))) (the (stod W (orderValue f b)))"
      by (simp add: rowLess_numeric)
  next
    from h show "strict_weak_order (double_less W) (map (\<lambda>r. the (stod W (orderValue f r))) rows)"
      by simp
  qed
qed

subsection \<open>The examples, evaluated\<close>

lemmas ev_file = ex_W_def ex_world_def ex_docs_def ex_select_def cheap_def simple_field_def
  menu_a_def menu_b_def menu_e_def menu_f_def food_def element_def text_node_def document_def
  processFile_def whereRows_def visitNode_def shouldEvaluate_def isNullCheck_def
  hasSelectFieldChild_def contextRow_def contextPair_def contextValue_def
  findFirstElementByName_def parent_is_def child_value_def path_filename_def doc_node_def
  plainRows_def plainPair_def maxResults_def processFileWithForClauses_def
  ex_findNodesByPartialPath_def ex_extractValues_def ex_resolve_def ex_compare_def
  stod_decimal_def read_sign_def read_exponent_def scale10_def is_digit_def is_space_def
  Let_def row3_def

lemma processFile_post:
  "processFile W filepath (query\<lparr>order_by_fields := ob, limit := l\<rparr>) = processFile W filepath query"
proof -
  let ?q = "query\<lparr>order_by_fields := ob, limit := l\<rparr>"
  have sf: "select_fields ?q = select_fields query" by simp
  have se: "shouldEvaluate ?q w whereField node = shouldEvaluate query w whereField node"
    for w whereField node
    by (simp add: shouldEvaluate_def)
  have v: "visitNode W ?q fn w whereField = visitNode W query fn w whereField" for fn w whereField
    by (intro ext) (simp only: visitNode_def se sf)
  have fq: "for_clauses ?q = for_clauses query" "where_expr ?q = where_expr query" by simp_all
  have wr: "whereRows W ?q fn doc w = whereRows W query fn doc w" for fn doc w
    by (simp only: whereRows_def v sf)
  have fc: "processFileWithForClauses W ?q doc fn = processFileWithForClauses W query doc fn"
    for fn doc
    by (simp only: processFileWithForClauses_def sf fq)
  show ?thesis
    by (simp only: processFile_def wr fc sf fq)
qed

lemma ex_files_data:
  "getXmlFiles ex_W ''data'' =
     [''data/a.xml'', ''data/b.xml'', ''data/c.xml'', ''data/e.xml'', ''data/f.xml'']"
  by (simp add: getXmlFiles_def ex_W_def ex_world_def ex_files_def)

lemma ex_files_few:
  "getXmlFiles ex_W ''few'' = [''few/a.xml'', ''few/b.xml'', ''few/c.xml'']"
  by (simp add: getXmlFiles_def ex_W_def ex_world_def ex_files_def)

lemma ex_files_empty: "getXmlFiles ex_W ''empty'' = []"
  by (simp add: getXmlFiles_def ex_W_def ex_world_def ex_files_def)

lemma ex_query:
  "from_path (ex_select dir) = dir" "order_by_fields (ex_select dir) = []"
  "limit (ex_select dir) = - 1" "for_clauses (ex_select dir) = []"
  "where_expr (ex_select dir) = None"
  "from_path (ex_ordered dir) = dir" "order_by_fields (ex_ordered dir) = [''calories'', ''name'']"
  "limit (ex_ordered dir) = 2"
  by (simp_all add: ex_select_def ex_ordered_def)

lemma ex_load:
  "load ex_W ''few/a.xml'' = Some menu_a" "load ex_W ''few/b.xml'' = Some menu_b"
  "load ex_W ''few/c.xml'' = None"
  "load ex_W ''data/a.xml'' = Some menu_a" "load ex_W ''data/b.xml'' = Some menu_b"
  "load ex_W ''data/c.xml'' = None"
  "load ex_W ''data/e.xml'' = Some menu_e" "load ex_W ''data/f.xml'' = Some menu_f"
  by (simp_all add: ex_W_def ex_world_def ex_docs_def)

lemma ex_rows_data:
  "processFile ex_W ''data/a.xml'' (ex_select dir) =
     Inr [row3 ''a.xml'' ''Toast'' ''900'', row3 [] ''Waffles'' ''650'']"
  "processFile ex_W ''data/b.xml'' (ex_select dir) = Inr [row3 ''b.xml'' ''Eggs'' ''300'']"
  "processFile ex_W ''data/c.xml'' (ex_select dir) = Inl Exception"
  "processFile ex_W ''data/e.xml'' (ex_select dir) = Inr [row3 ''e.xml'' ''Pancakes'' ''1200'']"
  "processFile ex_W ''data/f.xml'' (ex_select dir) = Inr [row3 ''f.xml'' ''Juice'' ''5'']"
  by (simp_all add: ev_file)

lemma ex_rows_few:
  "processFile ex_W ''few/a.xml'' (ex_select dir) =
     Inr [row3 ''a.xml'' ''Toast'' ''900'', row3 [] ''Waffles'' ''650'']"
  "processFile ex_W ''few/b.xml'' (ex_select dir) = Inr [row3 ''b.xml'' ''Eggs'' ''300'']"
  "processFile ex_W ''few/c.xml'' (ex_select dir) = Inl Exception"
  by (simp_all add: ev_file)

lemma ex_rows_ordered:
  "processFile ex_W filepath (ex_ordered dir) = processFile ex_W filepath (ex_select dir)"
  by (simp add: ex_ordered_def processFile_post)

lemma ex_rows_where:
  "processFile ex_W ''few/a.xml'' ((ex_select ''few'')\<lparr>where_expr := Some cheap\<rparr>) =
     Inr [row3 ''a.xml'' ''Waffles'' ''650'']"
  by (simp add: ev_file)

lemma ex_workers:
  "map (\<lambda>threadId. workerFiles threadId 8 (length (getXmlFiles ex_W ''data''))) [0 ..< 8] =
     [[0], [1], [2], [3], [4], [], [], []]"
  by (simp add: ex_files_data upt_rec workerFiles.simps)

lemma ex_threaded:
  "executeMultithreaded ex_W (getXmlFiles ex_W ''data'') (ex_select ''data'') 8 [4, 3, 2, 0, 0] =
     Inr [row3 ''f.xml'' ''Juice'' ''5'', row3 ''e.xml'' ''Pancakes'' ''1200'',
          row3 ''a.xml'' ''Toast'' ''900'', row3 [] ''Waffles'' ''650'',
          row3 ''b.xml'' ''Eggs'' ''300'']"
  apply (simp only: executeMultithreaded_def ex_workers)
  apply (simp add: ex_files_data ex_rows_data)
  done

lemma ex_sequential_data:
  "processFiles ex_W (ex_select ''data'') (getXmlFiles ex_W ''data'') [] =
     Inr [row3 ''a.xml'' ''Toast'' ''900'', row3 [] ''Waffles'' ''650'',
          row3 ''b.xml'' ''Eggs'' ''300'', row3 ''e.xml'' ''Pancakes'' ''1200'',
          row3 ''f.xml'' ''Juice'' ''5'']"
  by (simp add: ex_files_data ex_rows_data)

lemma ex_sequential_few:
  "processFiles ex_W (ex_ordered ''few'') (getXmlFiles ex_W ''few'') [] =
     Inr [row3 ''a.xml'' ''Toast'' ''900'', row3 [] ''Waffles'' ''650'',
          row3 ''b.xml'' ''Eggs'' ''300'']"
  by (simp add: ex_files_few ex_rows_few ex_rows_ordered)

lemma ex_numbers:
  "stod_decimal ''900'' = Some 900" "stod_decimal ''650'' = Some 650"
  "stod_decimal ''300'' = Some 300" "stod_decimal ''10'' = Some 10"
  "stod_decimal ''2'' = Some 2" "stod_decimal ''abc'' = None"
  "stod_decimal ''+5'' = Some 5" "stod_decimal '','' = None" "stod_decimal ''-7'' = Some (- 7)"
  by (simp_all add: stod_decimal_def read_sign_def read_exponent_def scale10_def is_digit_def
      is_space_def)

lemma ex_rowLess:
  "rowLess ex_W ''calories'' (row3 f nm cal) (row3 f' nm' cal') =
     (case stod_decimal cal of
        None \<Rightarrow> string_less cal cal'
      | Some x \<Rightarrow> (case stod_decimal cal' of None \<Rightarrow> string_less cal cal' | Some y \<Rightarrow> x < y))"
  by (simp add: rowLess_def row3_def ex_W_def ex_world_def split: option.splits)

lemma ex_sorted_few:
  "applyOrderBy ex_W (ex_ordered ''few'')
     [row3 ''a.xml'' ''Toast'' ''900'', row3 [] ''Waffles'' ''650'', row3 ''b.xml'' ''Eggs'' ''300''] =
   Inr [row3 ''b.xml'' ''Eggs'' ''300'', row3 [] ''Waffles'' ''650'', row3 ''a.xml'' ''Toast'' ''900'']"
proof -
  have swo: "strict_weak_order (rowLess ex_W ''calories'')
     [row3 ''a.xml'' ''Toast'' ''900'', row3 [] ''Waffles'' ''650'', row3 ''b.xml'' ''Eggs'' ''300'']"
    by (simp add: strict_weak_order_def ex_rowLess ex_numbers)
  have "sort_order ex_W = sort_by" by (simp add: ex_W_def ex_world_def)
  then show ?thesis
    by (simp add: applyOrderBy_def ex_query std_sort_def swo ex_rowLess ex_numbers)
qed

lemma ex_execute_few:
  "execute ex_W (ex_ordered ''few'') =
     Inr [row3 ''b.xml'' ''Eggs'' ''300'', row3 [] ''Waffles'' ''650'']"
proof -
  have ne: "getXmlFiles ex_W ''few'' \<noteq> []" by (simp add: ex_files_few)
  show ?thesis
    by (simp add: execute_def execute_files_def ex_query ne ex_sequential_few
        postProcess_def ex_sorted_few applyLimit_def)
qed

lemma execute_Inr:
  assumes "getXmlFiles W (from_path query) \<noteq> []" and "execute W query = Inr result"
  shows "\<exists>allResults. processFiles W query (getXmlFiles W (from_path query)) [] = Inr allResults \<and>
           postProcess W query allResults = Inr result"
proof (cases "processFiles W query (getXmlFiles W (from_path query)) []")
  case (Inl e)
  with assms show ?thesis by (simp add: execute_def execute_files_def)
next
  case (Inr allResults)
  with assms show ?thesis by (simp add: execute_def execute_files_def)
qed

lemma ex_machine:
  "hardware_concurrency ex_W = 8" "elapsed ex_W = 0" "sort_order ex_W cmp [] = []"
  by (simp_all add: ex_W_def ex_world_def)

lemma ex_progress_few:
  "executeWithProgress ex_W (ex_ordered ''few'') False None sched polls =
     Inr ([row3 ''b.xml'' ''Eggs'' ''300'', row3 [] ''Waffles'' ''650''], None, [])"
proof -
  have ne: "getXmlFiles ex_W ''few'' \<noteq> []" by (simp add: ex_files_few)
  have len: "length (getXmlFiles ex_W ''few'') = 3" by (simp add: ex_files_few)
  show ?thesis
    by (simp add: executeWithProgress_def Let_def ex_query ne len shouldUseThreading_def
        gatherResults_def processFilesWithProgress_no_callback ex_sequential_few
        postProcess_def ex_sorted_few applyLimit_def)
qed

lemma ex_progress_data:
  "executeWithProgress ex_W (ex_select ''data'') True (Some ex_stats) [4, 3, 2, 0, 0] [0, 3] =
     Inr ([row3 ''f.xml'' ''Juice'' ''5'', row3 ''e.xml'' ''Pancakes'' ''1200'',
           row3 ''a.xml'' ''Toast'' ''900'', row3 [] ''Waffles'' ''650'',
           row3 ''b.xml'' ''Eggs'' ''300''],
          Some \<lparr>total_files = 5, thread_count = 8, used_threading = True,
                execution_time_seconds = 0\<rparr>,
          [(0, 5, 8), (3, 5, 8), (5, 5, 8)])"
proof -
  have ne: "getXmlFiles ex_W ''data'' \<noteq> []" by (simp add: ex_files_data)
  have len: "length (getXmlFiles ex_W ''data'') = 5" by (simp add: ex_files_data)
  show ?thesis
    by (simp add: executeWithProgress_def Let_def ex_query ne len shouldUseThreading_def
        getOptimalThreadCount_def ex_machine gatherResults_def ex_threaded postProcess_def
        applyOrderBy_def applyLimit_def statsStarted_def statsFinished_def ex_stats_def)
qed

lemma ex_keyed:
  "rowLess ex_W ''k'' (keyed v) (keyed v') =
     (case stod_decimal v of
        None \<Rightarrow> string_less v v'
      | Some x \<Rightarrow> (case stod_decimal v' of None \<Rightarrow> string_less v v' | Some y \<Rightarrow> x < y))"
  by (simp add: rowLess_def keyed_def ex_W_def ex_world_def split: option.splits)

lemma ex_cycle:
  "rowLess ex_W ''k'' (keyed ''+5'') (keyed '','')"
  "rowLess ex_W ''k'' (keyed '','') (keyed ''-7'')"
  "rowLess ex_W ''k'' (keyed ''-7'') (keyed ''+5'')"
  "\<not> rowLess ex_W ''k'' (keyed ''+5'') (keyed ''-7'')"
  by (simp_all add: ex_keyed ex_numbers)

lemma ex_keyed_value: "stod ex_W (orderValue ''k'' (keyed v)) = stod_decimal v"
  by (simp add: keyed_def ex_W_def ex_world_def)

lemma ex_not_numbers: "stod_decimal [] = None" "stod_decimal ''abc'' = None"
  by (simp_all add: stod_decimal_def read_sign_def is_space_def is_digit_def)

lemma ex_swo_mixed:
  "strict_weak_order (rowLess ex_W ''k'') [keyed ''10'', keyed ''2'', keyed ''abc'']"
  by (simp add: strict_weak_order_def ex_keyed ex_numbers)

lemma ex_count: "countMatchingPaths ex_W (doc_node menu_a) [''food'', ''name''] = 2"
  by (simp add: ex_W_def ex_world_def ex_findNodesByPartialPath_def menu_a_def food_def
      element_def text_node_def document_def doc_node_def)

lemma ex_blocks_data:
  "fileRows ex_W (ex_select dir) ''data/a.xml'' =
     [row3 ''a.xml'' ''Toast'' ''900'', row3 [] ''Waffles'' ''650'']"
  "fileRows ex_W (ex_select dir) ''data/b.xml'' = [row3 ''b.xml'' ''Eggs'' ''300'']"
  "fileRows ex_W (ex_select dir) ''data/c.xml'' = []"
  "fileRows ex_W (ex_select dir) ''data/e.xml'' = [row3 ''e.xml'' ''Pancakes'' ''1200'']"
  "fileRows ex_W (ex_select dir) ''data/f.xml'' = [row3 ''f.xml'' ''Juice'' ''5'']"
  by (simp_all add: fileRows_def ex_rows_data)

lemma ex_order_data:
  "concat (map (\<lambda>fileIdx. fileRows ex_W (ex_select ''data'') (getXmlFiles ex_W ''data'' ! fileIdx))
     [4, 3, 2, 0, 1]) =
   [row3 ''f.xml'' ''Juice'' ''5'', row3 ''e.xml'' ''Pancakes'' ''1200'',
    row3 ''a.xml'' ''Toast'' ''900'', row3 [] ''Waffles'' ''650'', row3 ''b.xml'' ''Eggs'' ''300'']"
  "concat (map (\<lambda>fileIdx. fileRows ex_W (ex_select ''data'') (getXmlFiles ex_W ''data'' ! fileIdx))
     [4, 3, 0, 1]) =
   [row3 ''f.xml'' ''Juice'' ''5'', row3 ''e.xml'' ''Pancakes'' ''1200'',
    row3 ''a.xml'' ''Toast'' ''900'', row3 [] ''Waffles'' ''650'', row3 ''b.xml'' ''Eggs'' ''300'']"
  by (simp_all add: ex_files_data ex_blocks_data)

lemma ex_indices_data:
  "mset [4, 3, 2, 0, 1] = mset [0 ..< length (getXmlFiles ex_W ''data'')]"
  "mset [4, 3, 0, 1] =
     mset (filter (\<lambda>fileIdx. load ex_W (getXmlFiles ex_W ''data'' ! fileIdx) \<noteq> None)
             [0 ..< length (getXmlFiles ex_W ''data'')])"
proof -
  have u: "[0 ..< length (getXmlFiles ex_W ''data'')] = [0, 1, 2, 3, 4]"
    by (simp add: ex_files_data upt_rec eval_nat_numeral)
  show "mset [4, 3, 2, 0, 1] = mset [0 ..< length (getXmlFiles ex_W ''data'')]"
    by (simp only: u) (simp add: add_mset_commute)
  have "filter (\<lambda>fileIdx. load ex_W (getXmlFiles ex_W ''data'' ! fileIdx) \<noteq> None)
          [0, 1, 2, 3, 4] = [0, 1, 3, 4]"
    by (simp add: ex_files_data ex_load)
  then show "mset [4, 3, 0, 1] =
     mset (filter (\<lambda>fileIdx. load ex_W (getXmlFiles ex_W ''data'' ! fileIdx) \<noteq> None)
             [0 ..< length (getXmlFiles ex_W ''data'')])"
    by (simp only: u) (simp add: add_mset_commute)
qed




lemmas ev_nodes = contextNodes_def allNodes_def hasChildElement_def isElementNamed_def
  ex_note_def ex_note_query_def ex_evaluateWhereExpr.simps

lemma ex_files_single:
  "getXmlFiles ex_W ''note.xml'' = [''note.xml'']"
  "getXmlFiles ex_W ''keys.xml'' = [''keys.xml'']"
  by (simp_all add: getXmlFiles_def ex_W_def ex_world_def ex_files_def)

lemma ex_note_row:
  "processFile ex_W ''note.xml'' ex_note_query = Inr [[(''note'', ''hello'')]]"
  by (simp add: ev_nodes ev_file)

lemma ex_note_execute: "execute ex_W ex_note_query = Inr [[(''note'', ''hello'')]]"
proof -
  have q: "from_path ex_note_query = ''note.xml''" "order_by_fields ex_note_query = []"
    "limit ex_note_query = - 1"
    by (simp_all add: ex_note_query_def)
  show ?thesis
    by (simp add: execute_def execute_files_def q ex_files_single ex_note_row postProcess_def
        applyOrderBy_def applyLimit_def)
qed

lemma ex_note_contexts:
  "contextNodes ex_note_query (WhereCondition (simple_field [''note'']) EQ ''hello'' False) ex_note =
     [doc_node ex_note]"
  by (simp add: ev_nodes ev_file)

lemma ex_note_elements:
  "filter (\<lambda>node. tree_type (snd node) = node_element \<and> hasChildElement node ''note'')
     (allNodes ex_note) = []"
  by (simp add: ev_nodes ev_file)

lemma ex_null_below_or:
  "processFile ex_W ''priced.xml'' (ex_priced_query price_is_null) = Inr [[(''name'', ''Eggs'')]]"
  "processFile ex_W ''priced.xml'' (ex_priced_query (WhereLogical OR price_is_null name_is_toast)) =
     Inr [[(''name'', ''Toast'')]]"
  by (simp_all add: ex_priced_def ex_priced_query_def price_is_null_def name_is_toast_def
      ex_evaluateWhereExpr.simps ev_file)

lemma ex_keys_rows:
  "processFile ex_W ''keys.xml'' ex_keys_query = Inr [keyed ''+5'', keyed '','', keyed ''-7'']"
  by (simp add: ex_keys_def ex_keys_query_def keyed_def ev_file)

lemma ex_keys_not_swo:
  "\<not> strict_weak_order (rowLess ex_W ''k'') [keyed ''+5'', keyed '','', keyed ''-7'']"
proof
  assume "strict_weak_order (rowLess ex_W ''k'') [keyed ''+5'', keyed '','', keyed ''-7'']"
  then have "rowLess ex_W ''k'' (keyed ''+5'') (keyed ''-7'')"
    by (rule swo_transitive[where b = "keyed '',''"]) (simp_all add: ex_cycle)
  with ex_cycle(4) show False by contradiction
qed

lemma ex_keys_unordered:
  "list_all (\<lambda>ys. \<not> sorted_wrt (\<lambda>a b. \<not> rowLess ex_W ''k'' b a) ys)
     [[keyed ''+5'', keyed '','', keyed ''-7''], [keyed ''+5'', keyed ''-7'', keyed '',''],
      [keyed '','', keyed ''+5'', keyed ''-7''], [keyed '','', keyed ''-7'', keyed ''+5''],
      [keyed ''-7'', keyed ''+5'', keyed '',''], [keyed ''-7'', keyed '','', keyed ''+5'']]"
  by (simp add: ex_cycle)

lemma ex_keys_execute: "execute ex_W ex_keys_query = Inl UndefinedBehaviour"
proof -
  have q: "from_path ex_keys_query = ''keys.xml''" "order_by_fields ex_keys_query = [''k'']"
    by (simp_all add: ex_keys_query_def)
  show ?thesis
    by (simp add: execute_def execute_files_def q ex_files_single ex_keys_rows postProcess_def
        applyOrderBy_def std_sort_def ex_keys_not_swo)
qed

section \<open>Column order of the result rows\<close>

text \<open>
  Claim C1. Whatever the strategy (plain projection, WHERE, FOR clause), every row that
  \<open>processFile\<close> emits for a query with N select fields has exactly N pairs, and their
  column names are the labels of the select fields, in the order of \<open>select_fields\<close>.
\<close>

theorem processFile_columns:
  assumes "processFile W filepath query = Inr rows" and "row \<in> set rows"
  shows "length row = length (select_fields query) \<and>
         map fst row = map fieldName (select_fields query)"
proof -
  have names: "map fst row = map fieldName (select_fields query)"
  proof (cases "load W filepath")
    case None
    with assms show ?thesis by (simp add: processFile_def)
  next
    case (Some doc)
    let ?fn = "path_filename filepath"
    show ?thesis
    proof (cases "for_clauses query = []")
      case False
      then obtain fc rest where fc: "for_clauses query = fc # rest" by (cases "for_clauses query") auto
      with assms(1) Some False obtain nodes where
        "sequence_f (map (contextRow W ?fn (select_fields query)) nodes) = Inr rows"
        by (auto simp: processFile_def processFileWithForClauses_def Let_def)
      then have "Inr row \<in> set (map (contextRow W ?fn (select_fields query)) nodes)"
        using assms(2) by (rule sequence_f_member)
      then show ?thesis by (auto dest: contextRow_names[OF sym])
    next
      case True
      show ?thesis
      proof (cases "where_expr query")
        case None
        let ?frs = "map (extractValues W (doc_node doc) ?fn) (select_fields query)"
        from assms(1) Some True None have pr: "plainRows (select_fields query) ?frs = Inr rows"
          by (simp add: processFile_def)
        show ?thesis
        proof (cases "?frs = []")
          case True
          with pr assms(2) show ?thesis by (simp add: plainRows_def)
        next
          case False
          with pr have "sequence_f (map (\<lambda>i. sequence_f (map (plainPair i) (zip (select_fields query) ?frs)))
                  [0 ..< maxResults ?frs]) = Inr rows"
            by (simp add: plainRows_def)
          then have "Inr row \<in> set (map (\<lambda>i. sequence_f (map (plainPair i) (zip (select_fields query) ?frs)))
                  [0 ..< maxResults ?frs])"
        using assms(2) by (rule sequence_f_member)
          then obtain i where "sequence_f (map (plainPair i) (zip (select_fields query) ?frs)) = Inr row"
            by auto
          then show ?thesis by (rule plainRow_names) simp
        qed
      next
        case (Some w)
        let ?wf = "extractFieldPathFromWhere w"
        from assms(1) \<open>load W filepath = Some doc\<close> True Some
        have wr: "whereRows W query ?fn doc w = Inr rows"
          by (simp add: processFile_def)
        show ?thesis
        proof (cases "length (components ?wf) < 2")
          case True
          with wr have "sequence_f (searchTree (visitNode W query ?fn w ?wf) [] doc) = Inr rows"
            by (simp add: whereRows_def)
          then have "Inr row \<in> set (searchTree (visitNode W query ?fn w ?wf) [] doc)"
        using assms(2) by (rule sequence_f_member)
          then obtain node where "Inr row \<in> set (visitNode W query ?fn w ?wf node)"
            by (auto dest: searchTree_members(1))
          then have "contextRow W ?fn (select_fields query) node = Inr row"
            by (auto dest: visitNode_members)
          then show ?thesis by (rule contextRow_names)
        next
          case False
          with wr obtain nodes where
            "sequence_f (map (contextRow W ?fn (select_fields query)) nodes) = Inr rows"
            by (auto simp: whereRows_def Let_def)
          then have "Inr row \<in> set (map (contextRow W ?fn (select_fields query)) nodes)"
        using assms(2) by (rule sequence_f_member)
          then show ?thesis by (auto dest: contextRow_names[OF sym])
        qed
      qed
    qed
  qed
  then have "length row = length (select_fields query)" by (metis length_map)
  with names show ?thesis by simp
qed

theorem processFile_columns_witness:
  "processFile ex_W ''few/a.xml'' ((ex_select ''few'')\<lparr>where_expr := Some cheap\<rparr>)
     = Inr [[(''FILE_NAME'', ''a.xml''), (''name'', ''Waffles''), (''calories'', ''650'')]]
   \<and> length [(''FILE_NAME'', ''a.xml''), (''name'', ''Waffles''), (''calories'', ''650'')]
       = length (select_fields ((ex_select ''few'')\<lparr>where_expr := Some cheap\<rparr>))
   \<and> map fst [(''FILE_NAME'', ''a.xml''), (''name'', ''Waffles''), (''calories'', ''650'')]
       = map fieldName (select_fields ((ex_select ''few'')\<lparr>where_expr := Some cheap\<rparr>))"
proof -
  have run: "processFile ex_W ''few/a.xml'' ((ex_select ''few'')\<lparr>where_expr := Some cheap\<rparr>)
     = Inr [[(''FILE_NAME'', ''a.xml''), (''name'', ''Waffles''), (''calories'', ''650'')]]"
    by (simp add: ex_rows_where row3_def)
  show ?thesis
    using run processFile_columns[OF run, of "[(''FILE_NAME'', ''a.xml''), (''name'', ''Waffles''), (''calories'', ''650'')]"]
    by simp
qed

section \<open>Plain projection\<close>

text \<open>
  Claim C2. Without WHERE and FOR, \<open>processFile\<close> emits exactly M rows for a document,
  M being the greatest length among the lists of values extracted for the select fields,
  and row \<open>i\<close> holds for each select field the \<open>i\<close>-th value of its list, or the empty
  string when that list has no \<open>i\<close>-th value. The rows are produced for every query
  whose select fields have a label.
\<close>

theorem plain_projection_rows:
  assumes "load W filepath = Some doc"
    and "for_clauses query = []" and "where_expr query = None"
    and "\<forall>f \<in> set (select_fields query). named f"
  shows "\<exists>rows. processFile W filepath query = Inr rows \<and>
           length rows = Max (insert 0 (length ` (\<lambda>f. extractValues W (doc_node doc) (path_filename filepath) f) ` set (select_fields query))) \<and>
           (\<forall>i < length rows. rows ! i =
              map (\<lambda>f. (fieldName f,
                         let values = extractValues W (doc_node doc) (path_filename filepath) f
                         in if i < length values then xr_value (values ! i) else []))
                (select_fields query))"
proof -
  let ?ev = "extractValues W (doc_node doc) (path_filename filepath)"
  let ?fs = "select_fields query"
  let ?frs = "map ?ev ?fs"
  let ?row = "\<lambda>i. map (\<lambda>f. (fieldName f, plainCell (?ev f) i)) ?fs"
  let ?M = "Max (insert 0 (length ` ?ev ` set ?fs))"
  have zip: "zip ?fs ?frs = map (\<lambda>f. (f, ?ev f)) ?fs"
    by (rule zip_map_self)
  have row: "sequence_f (map (plainPair i) (zip ?fs ?frs)) = Inr (?row i)" for i
    using plainRow_named[OF assms(4), of i ?frs] by (simp add: zip comp_def)
  have M: "maxResults ?frs = ?M"
    by (simp add: maxResults_def foldl_max_Max image_image)
  have pf: "processFile W filepath query = plainRows ?fs ?frs"
    using assms(1,2,3) by (simp add: processFile_def)
  show ?thesis
  proof (cases "?fs = []")
    case True
    then show ?thesis using pf by (simp add: plainRows_def)
  next
    case False
    then have "plainRows ?fs ?frs = Inr (map ?row [0 ..< ?M])"
      by (simp add: plainRows_def row M sequence_f_map_Inr)
    with pf show ?thesis by (simp add: plainCell_def Let_def)
  qed
qed


theorem plain_projection_rows_witness:
  "load ex_W ''few/a.xml'' = Some menu_a \<and> for_clauses (ex_select ''few'') = [] \<and>
   where_expr (ex_select ''few'') = None \<and>
   list_all named (select_fields (ex_select ''few'')) \<and>
   (\<exists>rows. processFile ex_W ''few/a.xml'' (ex_select ''few'') = Inr rows \<and>
      rows = [[(''FILE_NAME'', ''a.xml''), (''name'', ''Toast''), (''calories'', ''900'')],
              [(''FILE_NAME'', []), (''name'', ''Waffles''), (''calories'', ''650'')]] \<and>
      length rows = Max (insert 0 (length ` (\<lambda>f. extractValues ex_W (doc_node menu_a)
                           (path_filename ''few/a.xml'') f) ` set (select_fields (ex_select ''few'')))))"
proof -
  have h1: "load ex_W ''few/a.xml'' = Some menu_a" by (rule ex_load)
  have h2: "for_clauses (ex_select ''few'') = []" by (rule ex_query)
  have h3: "where_expr (ex_select ''few'') = None" by (rule ex_query)
  have h4: "\<forall>f \<in> set (select_fields (ex_select ''few'')). named f"
    by (simp add: ex_select_def simple_field_def named_def)
  have run: "processFile ex_W ''few/a.xml'' (ex_select ''few'') =
      Inr [[(''FILE_NAME'', ''a.xml''), (''name'', ''Toast''), (''calories'', ''900'')],
           [(''FILE_NAME'', []), (''name'', ''Waffles''), (''calories'', ''650'')]]"
    by (simp add: ex_rows_few row3_def)
  from plain_projection_rows[OF h1 h2 h3 h4] run h1 h2 h3 h4 show ?thesis
    by (auto simp: list_all_iff)
qed

section \<open>The shorthand WHERE walk\<close>

text \<open>
  Claim C3, at an input where the code departs from it. The document is
  \<^verbatim>\<open><note>hello</note>\<close>, the query \<^verbatim>\<open>SELECT note FROM note.xml WHERE note = 'hello'\<close>.
  The walk starts at the document node. The branch for conditions other than IS NULL and
  IS NOT NULL asks only whether the first element named by the anchor is a child of the
  node; it does not ask, as the branch for IS NULL and IS NOT NULL does, whether the node
  is an element other than the document. So the document node is the one context node:
  the WHERE expression is evaluated there and a row is emitted, although no element of
  the document directly parents an element \<^verbatim>\<open>note\<close>.
\<close>

theorem document_node_evaluated:
  "execute ex_W ex_note_query = Inr [[(''note'', ''hello'')]] \<and>
   processFile ex_W ''note.xml'' ex_note_query = Inr [[(''note'', ''hello'')]] \<and>
   contextNodes ex_note_query (WhereCondition (simple_field [''note'']) EQ ''hello'' False) ex_note =
     [doc_node ex_note] \<and>
   tree_type (snd (doc_node ex_note)) = node_document \<and>
   filter (\<lambda>node. tree_type (snd node) = node_element \<and> hasChildElement node ''note'')
     (allNodes ex_note) = []"
  using ex_note_execute ex_note_row ex_note_contexts ex_note_elements
  by (simp add: doc_node_def ex_note_def document_def)

section \<open>LIMIT after ORDER BY\<close>

text \<open>
  Claim C5. Both entry points cut the result to its first \<open>limit\<close> rows after the
  ORDER BY stage: when \<open>limit\<close> is not negative and smaller than the number of rows, the
  result is the first \<open>limit\<close> rows of the sorted sequence; otherwise it is the sorted
  sequence itself. With no file the result is empty.
\<close>

theorem limit_after_order_by:
  "(execute W query = Inr result \<longrightarrow>
      (\<exists>sortedRows.
         (getXmlFiles W (from_path query) = [] \<and> sortedRows = [] \<or>
          (\<exists>allResults.
             processFiles W query (getXmlFiles W (from_path query)) [] = Inr allResults \<and>
             applyOrderBy W query allResults = Inr sortedRows)) \<and>
         (0 \<le> limit query \<and> nat (limit query) < length sortedRows
            \<longrightarrow> result = take (nat (limit query)) sortedRows) \<and>
         (\<not> (0 \<le> limit query \<and> nat (limit query) < length sortedRows)
            \<longrightarrow> result = sortedRows))) \<and>
   (executeWithProgress W query cb stats sched polls = Inr (result', st, calls) \<longrightarrow>
      (\<exists>sortedRows.
         (getXmlFiles W (from_path query) = [] \<and> sortedRows = [] \<or>
          (\<exists>allResults.
             gatherResults W query cb (getXmlFiles W (from_path query))
               (shouldUseThreading (length (getXmlFiles W (from_path query))))
               (if shouldUseThreading (length (getXmlFiles W (from_path query)))
                then getOptimalThreadCount W else 1) sched polls = Inr (allResults, calls) \<and>
             applyOrderBy W query allResults = Inr sortedRows)) \<and>
         (0 \<le> limit query \<and> nat (limit query) < length sortedRows
            \<longrightarrow> result' = take (nat (limit query)) sortedRows) \<and>
         (\<not> (0 \<le> limit query \<and> nat (limit query) < length sortedRows)
            \<longrightarrow> result' = sortedRows)))"
proof (intro conjI impI)
  assume run: "execute W query = Inr result"
  show "\<exists>sortedRows.
         (getXmlFiles W (from_path query) = [] \<and> sortedRows = [] \<or>
          (\<exists>allResults.
             processFiles W query (getXmlFiles W (from_path query)) [] = Inr allResults \<and>
             applyOrderBy W query allResults = Inr sortedRows)) \<and>
         (0 \<le> limit query \<and> nat (limit query) < length sortedRows
            \<longrightarrow> result = take (nat (limit query)) sortedRows) \<and>
         (\<not> (0 \<le> limit query \<and> nat (limit query) < length sortedRows)
            \<longrightarrow> result = sortedRows)"
  proof (cases "getXmlFiles W (from_path query) = []")
    case True
    with run have "result = []" by (simp add: execute_def execute_files_def)
    with True show ?thesis by (intro exI[of _ "[]"]) simp
  next
    case False
    from execute_Inr[OF False run] obtain allResults where
      a: "processFiles W query (getXmlFiles W (from_path query)) [] = Inr allResults"
      and p: "postProcess W query allResults = Inr result" by blast
    from postProcess_Inr[OF p] a show ?thesis by blast
  qed
next
  assume run: "executeWithProgress W query cb stats sched polls = Inr (result', st, calls)"
  show "\<exists>sortedRows.
         (getXmlFiles W (from_path query) = [] \<and> sortedRows = [] \<or>
          (\<exists>allResults.
             gatherResults W query cb (getXmlFiles W (from_path query))
               (shouldUseThreading (length (getXmlFiles W (from_path query))))
               (if shouldUseThreading (length (getXmlFiles W (from_path query)))
                then getOptimalThreadCount W else 1) sched polls = Inr (allResults, calls) \<and>
             applyOrderBy W query allResults = Inr sortedRows)) \<and>
         (0 \<le> limit query \<and> nat (limit query) < length sortedRows
            \<longrightarrow> result' = take (nat (limit query)) sortedRows) \<and>
         (\<not> (0 \<le> limit query \<and> nat (limit query) < length sortedRows)
            \<longrightarrow> result' = sortedRows)"
  proof (cases "getXmlFiles W (from_path query) = []")
    case True
    with run have "result' = []" by (simp add: executeWithProgress_def)
    with True show ?thesis by (intro exI[of _ "[]"]) simp
  next
    case False
    from executeWithProgress_Inr[OF False run] obtain allResults where
      a: "gatherResults W query cb (getXmlFiles W (from_path query))
               (shouldUseThreading (length (getXmlFiles W (from_path query))))
               (if shouldUseThreading (length (getXmlFiles W (from_path query)))
                then getOptimalThreadCount W else 1) sched polls = Inr (allResults, calls)"
      and p: "postProcess W query allResults = Inr result'" by blast
    from postProcess_Inr[OF p] a show ?thesis by blast
  qed
qed

theorem limit_after_order_by_witness:
  "execute ex_W (ex_ordered ''few'') =
     Inr [row3 ''b.xml'' ''Eggs'' ''300'', row3 [] ''Waffles'' ''650''] \<and>
   executeWithProgress ex_W (ex_ordered ''few'') False None [] [] =
     Inr ([row3 ''b.xml'' ''Eggs'' ''300'', row3 [] ''Waffles'' ''650''], None, []) \<and>
   processFiles ex_W (ex_ordered ''few'') (getXmlFiles ex_W ''few'') [] =
     Inr [row3 ''a.xml'' ''Toast'' ''900'', row3 [] ''Waffles'' ''650'',
          row3 ''b.xml'' ''Eggs'' ''300''] \<and>
   (\<exists>sortedRows.
      applyOrderBy ex_W (ex_ordered ''few'')
        [row3 ''a.xml'' ''Toast'' ''900'', row3 [] ''Waffles'' ''650'',
         row3 ''b.xml'' ''Eggs'' ''300''] = Inr sortedRows \<and>
      [row3 ''b.xml'' ''Eggs'' ''300'', row3 [] ''Waffles'' ''650''] = take 2 sortedRows)"
proof -
  have e: "execute ex_W (ex_ordered ''few'') =
     Inr [row3 ''b.xml'' ''Eggs'' ''300'', row3 [] ''Waffles'' ''650'']"
    by (rule ex_execute_few)
  have p: "executeWithProgress ex_W (ex_ordered ''few'') False None [] [] =
     Inr ([row3 ''b.xml'' ''Eggs'' ''300'', row3 [] ''Waffles'' ''650''], None, [])"
    by (rule ex_progress_few)
  have ne: "getXmlFiles ex_W (from_path (ex_ordered ''few'')) \<noteq> []"
    by (simp add: ex_query ex_files_few)
  note inst = limit_after_order_by[of ex_W "ex_ordered ''few''"
      "[row3 ''b.xml'' ''Eggs'' ''300'', row3 [] ''Waffles'' ''650'']" False None "[]" "[]"
      "[row3 ''b.xml'' ''Eggs'' ''300'', row3 [] ''Waffles'' ''650'']" None "[]"]
  from inst e ne obtain sortedRows allResults where
    a: "processFiles ex_W (ex_ordered ''few'') (getXmlFiles ex_W (from_path (ex_ordered ''few''))) []
          = Inr allResults"
    and s: "applyOrderBy ex_W (ex_ordered ''few'') allResults = Inr sortedRows"
    and l: "0 \<le> limit (ex_ordered ''few'') \<and> nat (limit (ex_ordered ''few'')) < length sortedRows
            \<longrightarrow> [row3 ''b.xml'' ''Eggs'' ''300'', row3 [] ''Waffles'' ''650'']
                  = take (nat (limit (ex_ordered ''few''))) sortedRows"
    by blast
  from a have all: "allResults = [row3 ''a.xml'' ''Toast'' ''900'', row3 [] ''Waffles'' ''650'',
          row3 ''b.xml'' ''Eggs'' ''300'']"
    by (simp add: ex_query ex_sequential_few)
  from s all have so: "sortedRows = [row3 ''b.xml'' ''Eggs'' ''300'', row3 [] ''Waffles'' ''650'',
          row3 ''a.xml'' ''Toast'' ''900'']"
    by (simp add: ex_sorted_few)
  from l so have "[row3 ''b.xml'' ''Eggs'' ''300'', row3 [] ''Waffles'' ''650''] = take 2 sortedRows"
    by (simp add: ex_query)
  with e p s all show ?thesis by (simp add: ex_sequential_few)
qed

section \<open>The threading rule\<close>

text \<open>
  Claim C6, as amended. On a file set that is not empty, \<open>executeWithProgress\<close> runs
  threaded exactly when there are at least 5 files; the threaded run uses
  \<open>min (hardware parallelism, 16)\<close> workers, 4 standing in for a parallelism reported
  as 0, and the statistics then say so; below 5 files the files are processed in
  order by one thread and the statistics report one thread and no threading. With no
  file at all the function returns before it writes the statistics.
\<close>

theorem threading_rule:
  assumes "getXmlFiles W (from_path query) \<noteq> []"
    and "executeWithProgress W query cb stats sched polls = Inr (result, st, calls)"
  shows "(shouldUseThreading (length (getXmlFiles W (from_path query)))
            \<longleftrightarrow> 5 \<le> length (getXmlFiles W (from_path query))) \<and>
         getOptimalThreadCount W =
           min (if hardware_concurrency W = 0 then 4 else hardware_concurrency W) 16 \<and>
         (5 \<le> length (getXmlFiles W (from_path query)) \<longrightarrow>
            (\<exists>allResults.
               executeMultithreaded W (getXmlFiles W (from_path query)) query
                 (getOptimalThreadCount W) sched = Inr allResults \<and>
               postProcess W query allResults = Inr result) \<and>
            st = map_option (\<lambda>s. s\<lparr>total_files := length (getXmlFiles W (from_path query)),
                    thread_count := getOptimalThreadCount W, used_threading := True,
                    execution_time_seconds := elapsed W\<rparr>) stats) \<and>
         (length (getXmlFiles W (from_path query)) < 5 \<longrightarrow>
            (\<exists>allResults.
               processFiles W query (getXmlFiles W (from_path query)) [] = Inr allResults \<and>
               postProcess W query allResults = Inr result) \<and>
            st = map_option (\<lambda>s. s\<lparr>total_files := length (getXmlFiles W (from_path query)),
                    thread_count := 1, used_threading := False,
                    execution_time_seconds := elapsed W\<rparr>) stats)"
proof -
  let ?files = "getXmlFiles W (from_path query)"
  have thr: "shouldUseThreading (length ?files) \<longleftrightarrow> 5 \<le> length ?files"
    by (simp add: shouldUseThreading_def)
  have tc: "getOptimalThreadCount W =
           min (if hardware_concurrency W = 0 then 4 else hardware_concurrency W) 16"
    by (simp add: getOptimalThreadCount_def)
  from executeWithProgress_Inr[OF assms] obtain allResults where
    g: "gatherResults W query cb ?files (shouldUseThreading (length ?files))
             (if shouldUseThreading (length ?files) then getOptimalThreadCount W else 1)
             sched polls = Inr (allResults, calls)"
    and pp: "postProcess W query allResults = Inr result"
    and st: "st = map_option (\<lambda>s. s\<lparr>total_files := length ?files,
                  thread_count := (if shouldUseThreading (length ?files)
                                   then getOptimalThreadCount W else 1),
                  used_threading := shouldUseThreading (length ?files),
                  execution_time_seconds := elapsed W\<rparr>) stats"
    by blast
  have big: "(\<exists>allResults.
               executeMultithreaded W ?files query (getOptimalThreadCount W) sched = Inr allResults \<and>
               postProcess W query allResults = Inr result) \<and>
            st = map_option (\<lambda>s. s\<lparr>total_files := length ?files,
                    thread_count := getOptimalThreadCount W, used_threading := True,
                    execution_time_seconds := elapsed W\<rparr>) stats"
    if "5 \<le> length ?files"
  proof -
    from that thr have t: "shouldUseThreading (length ?files)" by simp
    from g t have "executeMultithreaded W ?files query (getOptimalThreadCount W) sched = Inr allResults"
      by (simp add: gatherResults_threaded)
    with pp st t show ?thesis by simp
  qed
  have small: "(\<exists>allResults.
               processFiles W query ?files [] = Inr allResults \<and>
               postProcess W query allResults = Inr result) \<and>
            st = map_option (\<lambda>s. s\<lparr>total_files := length ?files,
                    thread_count := 1, used_threading := False,
                    execution_time_seconds := elapsed W\<rparr>) stats"
    if "length ?files < 5"
  proof -
    from that thr have t: "\<not> shouldUseThreading (length ?files)" by simp
    from g t have "processFiles W query ?files [] = Inr allResults"
      by (simp add: gatherResults_sequential)
    with pp st t show ?thesis by simp
  qed
  from thr tc big small show ?thesis by blast
qed

theorem threading_rule_witness:
  "getXmlFiles ex_W (from_path (ex_select ''data'')) =
     [''data/a.xml'', ''data/b.xml'', ''data/c.xml'', ''data/e.xml'', ''data/f.xml''] \<and>
   executeWithProgress ex_W (ex_select ''data'') True (Some ex_stats) [4, 3, 2, 0, 0] [0, 3]
     = Inr ([row3 ''f.xml'' ''Juice'' ''5'', row3 ''e.xml'' ''Pancakes'' ''1200'',
             row3 ''a.xml'' ''Toast'' ''900'', row3 [] ''Waffles'' ''650'',
             row3 ''b.xml'' ''Eggs'' ''300''],
            Some \<lparr>total_files = 5, thread_count = 8, used_threading = True,
                  execution_time_seconds = 0\<rparr>,
            [(0, 5, 8), (3, 5, 8), (5, 5, 8)]) \<and>
   getOptimalThreadCount ex_W = 8 \<and>
   shouldUseThreading (length (getXmlFiles ex_W (from_path (ex_select ''data''))))"
proof -
  have files: "getXmlFiles ex_W (from_path (ex_select ''data'')) \<noteq> []"
    by (simp add: ex_query ex_files_data)
  have l: "getXmlFiles ex_W (from_path (ex_select ''data'')) =
     [''data/a.xml'', ''data/b.xml'', ''data/c.xml'', ''data/e.xml'', ''data/f.xml'']"
    by (simp add: ex_query ex_files_data)
  note run = ex_progress_data
  from threading_rule[OF files run] have
    "shouldUseThreading (length (getXmlFiles ex_W (from_path (ex_select ''data'')))) \<longleftrightarrow>
       5 \<le> length (getXmlFiles ex_W (from_path (ex_select ''data'')))"
    and "getOptimalThreadCount ex_W =
       min (if hardware_concurrency ex_W = 0 then 4 else hardware_concurrency ex_W) 16"
    by blast+
  with run l show ?thesis by (simp add: ex_machine)
qed

text \<open>
  The claim as stated fails on an empty file set: the statistics keep what they held
  before the call, here the report of an earlier threaded run.
\<close>

theorem threading_stats_counterexample:
  "length (getXmlFiles ex_W (from_path (ex_select ''empty''))) < 5 \<and>
   executeWithProgress ex_W (ex_select ''empty'') False (Some ex_stats) [] []
     = Inr ([], Some ex_stats, []) \<and>
   used_threading ex_stats"
  by (simp add: executeWithProgress_def ex_query ex_files_empty ex_stats_def)

section \<open>Strided assignment and the merged rows\<close>

text \<open>
  Claim C7. With at least one worker, the strided loops assign every file index to
  exactly one worker, and to that worker once. Whatever the schedule of the workers,
  the rows merged by \<open>executeMultithreaded\<close> are the rows of the files, file after
  file in some order of the files: each file's rows stay together and in their order,
  only the order of the files may differ from the enumeration order that processing
  them sequentially follows. So the merged rows are, as a multiset, the rows of the
  sequential run; the threaded run has undefined behaviour exactly when the sequential
  one has.
\<close>

theorem strided_assignment:
  assumes "0 < threadCount"
  shows "(\<forall>fileIdx < length xmlFiles. \<exists>!threadId. threadId < threadCount \<and>
            fileIdx \<in> set (workerFiles threadId threadCount (length xmlFiles))) \<and>
         (\<forall>threadId < threadCount. distinct (workerFiles threadId threadCount (length xmlFiles))) \<and>
         ((\<exists>order merged sequential.
              mset order = mset [0 ..< length xmlFiles] \<and>
              executeMultithreaded W xmlFiles query threadCount sched = Inr merged \<and>
              merged = concat (map (\<lambda>fileIdx. fileRows W query (xmlFiles ! fileIdx)) order) \<and>
              processFiles W query xmlFiles [] = Inr sequential \<and>
              sequential = concat (map (\<lambda>fileIdx. fileRows W query (xmlFiles ! fileIdx))
                                     [0 ..< length xmlFiles]) \<and>
              mset merged = mset sequential) \<or>
          (executeMultithreaded W xmlFiles query threadCount sched = Inl UndefinedBehaviour \<and>
           processFiles W query xmlFiles [] = Inl UndefinedBehaviour))"
proof (intro conjI allI impI)
  fix fileIdx assume "fileIdx < length xmlFiles"
  then show "\<exists>!threadId. threadId < threadCount \<and>
            fileIdx \<in> set (workerFiles threadId threadCount (length xmlFiles))"
    using assms by (auto simp: workerFiles_member intro!: ex1I[of _ "fileIdx mod threadCount"])
next
  fix threadId
  show "distinct (workerFiles threadId threadCount (length xmlFiles))"
    using assms by (rule workerFiles_distinct)
next
  let ?blk = "\<lambda>fileIdx. fileRows W query (xmlFiles ! fileIdx)"
  show "(\<exists>order merged sequential.
              mset order = mset [0 ..< length xmlFiles] \<and>
              executeMultithreaded W xmlFiles query threadCount sched = Inr merged \<and>
              merged = concat (map ?blk order) \<and>
              processFiles W query xmlFiles [] = Inr sequential \<and>
              sequential = concat (map ?blk [0 ..< length xmlFiles]) \<and>
              mset merged = mset sequential) \<or>
          (executeMultithreaded W xmlFiles query threadCount sched = Inl UndefinedBehaviour \<and>
           processFiles W query xmlFiles [] = Inl UndefinedBehaviour)"
  proof (cases "\<exists>f \<in> set xmlFiles. processFile W f query = Inl UndefinedBehaviour")
    case True
    with executeMultithreaded_blocks[OF assms, of xmlFiles W query sched]
    have "executeMultithreaded W xmlFiles query threadCount sched = Inl UndefinedBehaviour"
      by (simp only: if_True)
    moreover from True have "processFiles W query xmlFiles [] = Inl UndefinedBehaviour"
      by (simp only: processFiles_blocks if_True)
    ultimately show ?thesis by blast
  next
    case False
    with executeMultithreaded_blocks[OF assms, of xmlFiles W query sched]
    obtain order where o: "mset order = mset [0 ..< length xmlFiles]"
      and m: "executeMultithreaded W xmlFiles query threadCount sched = Inr (concat (map ?blk order))"
      by (simp only: if_False) blast
    from False have s: "processFiles W query xmlFiles [] =
        Inr (concat (map ?blk [0 ..< length xmlFiles]))"
      by (simp only: processFiles_blocks if_False)
    from o have "mset (concat (map ?blk order)) = mset (concat (map ?blk [0 ..< length xmlFiles]))"
      by (rule mset_concat_blocks)
    with o m s show ?thesis by blast
  qed
qed

theorem strided_assignment_witness:
  "(0::nat) < 8 \<and>
   executeMultithreaded ex_W (getXmlFiles ex_W ''data'') (ex_select ''data'') 8 [4, 3, 2, 0, 0] =
     Inr [row3 ''f.xml'' ''Juice'' ''5'', row3 ''e.xml'' ''Pancakes'' ''1200'',
          row3 ''a.xml'' ''Toast'' ''900'', row3 [] ''Waffles'' ''650'',
          row3 ''b.xml'' ''Eggs'' ''300''] \<and>
   processFiles ex_W (ex_select ''data'') (getXmlFiles ex_W ''data'') [] =
     Inr [row3 ''a.xml'' ''Toast'' ''900'', row3 [] ''Waffles'' ''650'',
          row3 ''b.xml'' ''Eggs'' ''300'', row3 ''e.xml'' ''Pancakes'' ''1200'',
          row3 ''f.xml'' ''Juice'' ''5''] \<and>
   mset [4, 3, 2, 0, 1] = mset [0 ..< length (getXmlFiles ex_W ''data'')] \<and>
   [row3 ''f.xml'' ''Juice'' ''5'', row3 ''e.xml'' ''Pancakes'' ''1200'',
    row3 ''a.xml'' ''Toast'' ''900'', row3 [] ''Waffles'' ''650'', row3 ''b.xml'' ''Eggs'' ''300''] =
     concat (map (\<lambda>fileIdx. fileRows ex_W (ex_select ''data'') (getXmlFiles ex_W ''data'' ! fileIdx))
               [4, 3, 2, 0, 1]) \<and>
   (\<exists>order. mset order = mset [0 ..< length (getXmlFiles ex_W ''data'')] \<and>
      [row3 ''f.xml'' ''Juice'' ''5'', row3 ''e.xml'' ''Pancakes'' ''1200'',
       row3 ''a.xml'' ''Toast'' ''900'', row3 [] ''Waffles'' ''650'',
       row3 ''b.xml'' ''Eggs'' ''300''] =
      concat (map (\<lambda>fileIdx. fileRows ex_W (ex_select ''data'') (getXmlFiles ex_W ''data'' ! fileIdx))
                order)) \<and>
   mset [row3 ''f.xml'' ''Juice'' ''5'', row3 ''e.xml'' ''Pancakes'' ''1200'',
         row3 ''a.xml'' ''Toast'' ''900'', row3 [] ''Waffles'' ''650'',
         row3 ''b.xml'' ''Eggs'' ''300''] =
   mset [row3 ''a.xml'' ''Toast'' ''900'', row3 [] ''Waffles'' ''650'',
         row3 ''b.xml'' ''Eggs'' ''300'', row3 ''e.xml'' ''Pancakes'' ''1200'',
         row3 ''f.xml'' ''Juice'' ''5'']"
proof -
  let ?merged = "[row3 ''f.xml'' ''Juice'' ''5'', row3 ''e.xml'' ''Pancakes'' ''1200'',
    row3 ''a.xml'' ''Toast'' ''900'', row3 [] ''Waffles'' ''650'', row3 ''b.xml'' ''Eggs'' ''300'']"
  let ?sequential = "[row3 ''a.xml'' ''Toast'' ''900'', row3 [] ''Waffles'' ''650'',
    row3 ''b.xml'' ''Eggs'' ''300'', row3 ''e.xml'' ''Pancakes'' ''1200'',
    row3 ''f.xml'' ''Juice'' ''5'']"
  let ?blk = "\<lambda>fileIdx. fileRows ex_W (ex_select ''data'') (getXmlFiles ex_W ''data'' ! fileIdx)"
  have pos: "(0::nat) < 8" by simp
  have defined: "executeMultithreaded ex_W (getXmlFiles ex_W ''data'') (ex_select ''data'') 8
      [4, 3, 2, 0, 0] \<noteq> Inl UndefinedBehaviour"
    by (simp only: ex_threaded) simp
  note inst = strided_assignment[OF pos, of "getXmlFiles ex_W ''data''" ex_W "ex_select ''data''"
      "[4, 3, 2, 0, 0]", THEN conjunct2, THEN conjunct2]
  note blocks = disj_not_right[OF inst defined]
  then obtain order merged sequential where
    o: "mset order = mset [0 ..< length (getXmlFiles ex_W ''data'')]"
    and m: "executeMultithreaded ex_W (getXmlFiles ex_W ''data'') (ex_select ''data'') 8
      [4, 3, 2, 0, 0] = Inr merged" "merged = concat (map ?blk order)"
    and s: "processFiles ex_W (ex_select ''data'') (getXmlFiles ex_W ''data'') [] = Inr sequential"
    and ms: "mset merged = mset sequential"
    by (elim exE conjE)
  from m(1) have m1: "merged = ?merged" by (simp only: ex_threaded sum.inject)
  from s have s1: "sequential = ?sequential" by (simp only: ex_sequential_data sum.inject)
  from o m(2) have ex: "\<exists>order. mset order = mset [0 ..< length (getXmlFiles ex_W ''data'')] \<and>
      ?merged = concat (map ?blk order)"
    unfolding m1 by (intro exI[of _ order] conjI)
  from ms have eq: "mset ?merged = mset ?sequential" unfolding m1 s1 .
  from pos ex_threaded ex_sequential_data ex_indices_data(1) ex_order_data(1)[symmetric] ex eq
  show ?thesis by (intro conjI)
qed

section \<open>A file that fails\<close>



section \<open>The two entry points\<close>

text \<open>
  Claim C10. On a file set of fewer than 5 files, \<open>executeWithProgress\<close> without a
  progress callback and without statistics returns what \<open>execute\<close> returns: the same
  rows in the same order, or the same failure.
\<close>

theorem entry_points_agree:
  assumes "length (getXmlFiles W (from_path query)) < 5"
  shows "(case executeWithProgress W query False None sched polls of
            Inl e \<Rightarrow> Inl e
          | Inr out \<Rightarrow> Inr (fst out)) = execute W query"
proof (cases "getXmlFiles W (from_path query) = []")
  case True
  then show ?thesis by (simp add: executeWithProgress_def execute_def execute_files_def)
next
  case False
  let ?files = "getXmlFiles W (from_path query)"
  from assms have nothr: "\<not> shouldUseThreading (length ?files)"
    by (simp add: shouldUseThreading_def)
  show ?thesis
  proof (cases "processFiles W query ?files []")
    case (Inl e)
    then show ?thesis using False nothr
      by (simp add: executeWithProgress_def execute_def execute_files_def gatherResults_def
          processFilesWithProgress_no_callback)
  next
    case (Inr allResults)
    then show ?thesis using False nothr
      by (cases "postProcess W query allResults")
        (simp_all add: executeWithProgress_def execute_def execute_files_def gatherResults_def
          processFilesWithProgress_no_callback)
  qed
qed

theorem entry_points_agree_witness:
  "length (getXmlFiles ex_W (from_path (ex_ordered ''few''))) < 5 \<and>
   (case executeWithProgress ex_W (ex_ordered ''few'') False None [1, 0] [] of
      Inl e \<Rightarrow> Inl e
    | Inr out \<Rightarrow> Inr (fst out)) = execute ex_W (ex_ordered ''few'') \<and>
   execute ex_W (ex_ordered ''few'') =
     Inr [row3 ''b.xml'' ''Eggs'' ''300'', row3 [] ''Waffles'' ''650'']"
proof -
  have h: "length (getXmlFiles ex_W (from_path (ex_ordered ''few''))) < 5"
    by (simp add: ex_query ex_files_few)
  from entry_points_agree[OF h, of "[1, 0]" "[]"] h ex_execute_few show ?thesis
    by (intro conjI)
qed

section \<open>The ORDER BY comparator\<close>

text \<open>
  Claim C4, at an input where the code departs from it. The file \<^verbatim>\<open>keys.xml\<close> holds
  the keys \<^verbatim>\<open>+5\<close>, \<^verbatim>\<open>,\<close> and \<^verbatim>\<open>-7\<close>, the query is
  \<^verbatim>\<open>SELECT k FROM keys.xml ORDER BY k\<close>. As strings \<^verbatim>\<open>+5\<close> is below \<^verbatim>\<open>,\<close> and
  \<^verbatim>\<open>,\<close> below \<^verbatim>\<open>-7\<close> (the bytes 0x2B, 0x2C, 0x2D); as numbers -7 is below 5. The
  comparator runs in a circle: it is no strict weak ordering of the three rows, none of
  their six arrangements is in order by it, and the call of \<^verbatim>\<open>std::sort\<close> that
  \<open>execute\<close> makes has undefined behaviour.
\<close>

theorem order_by_comparator_cycle:
  "processFiles ex_W ex_keys_query (getXmlFiles ex_W (from_path ex_keys_query)) [] =
     Inr [keyed ''+5'', keyed '','', keyed ''-7''] \<and>
   rowLess ex_W ''k'' (keyed ''+5'') (keyed '','') \<and>
   rowLess ex_W ''k'' (keyed '','') (keyed ''-7'') \<and>
   rowLess ex_W ''k'' (keyed ''-7'') (keyed ''+5'') \<and>
   std_sort ex_W (rowLess ex_W ''k'') [keyed ''+5'', keyed '','', keyed ''-7''] =
     Inl UndefinedBehaviour \<and>
   list_all (\<lambda>ys. \<not> sorted_wrt (\<lambda>a b. \<not> rowLess ex_W ''k'' b a) ys)
     [[keyed ''+5'', keyed '','', keyed ''-7''], [keyed ''+5'', keyed ''-7'', keyed '',''],
      [keyed '','', keyed ''+5'', keyed ''-7''], [keyed '','', keyed ''-7'', keyed ''+5''],
      [keyed ''-7'', keyed ''+5'', keyed '',''], [keyed ''-7'', keyed '','', keyed ''+5'']] \<and>
   execute ex_W ex_keys_query = Inl UndefinedBehaviour"
proof -
  have "processFiles ex_W ex_keys_query (getXmlFiles ex_W (from_path ex_keys_query)) [] =
     Inr [keyed ''+5'', keyed '','', keyed ''-7'']"
    by (simp add: ex_keys_query_def[THEN arg_cong, of from_path] ex_files_single ex_keys_rows)
  moreover have "std_sort ex_W (rowLess ex_W ''k'') [keyed ''+5'', keyed '','', keyed ''-7''] =
     Inl UndefinedBehaviour"
    using ex_keys_not_swo by (simp only: std_sort_def if_False)
  ultimately show ?thesis
    using ex_cycle(1,2,3) ex_keys_unordered ex_keys_execute by (intro conjI)
qed

section \<open>Ambiguous paths\<close>

text \<open>
  Claim C9, at an input where the code departs from it. The first file of the directory
  holds two \<^verbatim>\<open>food\<close> elements, so the path \<^verbatim>\<open>food.name\<close> matches twice. The query
  names that path twice in SELECT and once in WHERE. The loop over the WHERE conditions
  looks for the string among those already reported, the loop over the select fields does
  not: the path is reported twice.
\<close>

theorem ambiguous_path_reported_twice:
  "checkForAmbiguousAttributes ex_W ex_duplicate = Inr [''food.name'', ''food.name''] \<and>
   getXmlFiles ex_W (from_path ex_duplicate) = [''few/a.xml'', ''few/b.xml'', ''few/c.xml''] \<and>
   load ex_W ''few/a.xml'' = Some menu_a \<and>
   countMatchingPaths ex_W (doc_node menu_a) [''food'', ''name''] = 2"
proof -
  have f: "getXmlFiles ex_W (from_path ex_duplicate) = [''few/a.xml'', ''few/b.xml'', ''few/c.xml'']"
    by (simp add: ex_duplicate_def ex_files_few)
  have "checkForAmbiguousAttributes ex_W ex_duplicate = Inr [''food.name'', ''food.name'']"
    unfolding checkForAmbiguousAttributes_def f
    by (simp add: ex_load) (simp add: ex_duplicate_def simple_field_def ex_count pathToString_def Let_def)
  with f ex_count show ?thesis by (simp add: ex_load)
qed

end
